theory Spec2Isabelle
  imports Main "HOL-Library.Word"
begin

unbundle bit_operations_syntax

section \<open>Machine types and pointers\<close>

text \<open>
  The firmware is built for Teensy 4.1 (32-bit ARM): \<open>size_t\<close> is an unsigned 32-bit
  integer whose arithmetic wraps modulo \<open>2 ^ 32\<close>, and the toolchain's
  \<open>uint_fast8_t\<close> is an unsigned 32-bit integer as well. Bytes are \<open>uint8_t\<close>.
\<close>

type_synonym size_t = "32 word"
type_synonym uint_fast8_t = "32 word"
type_synonym uint8_t = "8 word"

text \<open>
  A non-null \<open>uint8_t *\<close> into the two-dimensional array \<open>frames\<close> is the slot it
  points into and the byte offset within that slot; \<open>nullptr\<close> is \<open>None\<close>.
  \<open>frames[i]\<close> decays to \<open>Ptr i 0\<close>.
\<close>

datatype ptr = Ptr (slot: nat) (offset: nat)

fun ptr_add :: "ptr \<Rightarrow> nat \<Rightarrow> ptr" where
  "ptr_add (Ptr s off) n = Ptr s (off + n)"

section \<open>framebuffer.h: \<open>FrameBuffer<frame_size, num_frames>\<close>\<close>

record FrameBuffer =
  frames :: "uint8_t list list"
  write_frame :: size_t
  read_frame :: size_t
  readable_count :: size_t

text \<open>
  The members \<open>frames_\<close>, \<open>write_frame_\<close>, \<open>read_frame_\<close> and
  \<open>readable_count_\<close> lose their trailing underscore, which Isabelle reserves.
  The template arguments are passed explicitly: \<open>kFrameSize\<close> to \<open>Init\<close>, and
  \<open>kNumFrames\<close> to every member function that mentions it. The non-const member
  functions \<open>writeable_frame\<close> and \<open>readable_frame\<close> return their result together
  with the object they leave behind.
\<close>

definition Init :: "size_t \<Rightarrow> size_t \<Rightarrow> FrameBuffer" where
  "Init kFrameSize kNumFrames =
     \<lparr> frames = replicate (unat kNumFrames) (replicate (unat kFrameSize) 0),
       write_frame = 0,
       read_frame = 0,
       readable_count = 0 \<rparr>"

definition writeable_frame :: "size_t \<Rightarrow> FrameBuffer \<Rightarrow> ptr option \<times> FrameBuffer" where
  "writeable_frame kNumFrames fb =
     (if readable_count fb \<ge> kNumFrames then (None, fb)
      else (Some (Ptr (unat (write_frame fb)) 0), fb))"

definition writeable :: "size_t \<Rightarrow> FrameBuffer \<Rightarrow> bool" where
  "writeable kNumFrames fb \<longleftrightarrow> readable_count fb < kNumFrames"

definition written :: "size_t \<Rightarrow> FrameBuffer \<Rightarrow> FrameBuffer" where
  "written kNumFrames fb =
     fb \<lparr> write_frame := (write_frame fb + 1) mod kNumFrames,
          readable_count := readable_count fb + 1 \<rparr>"

definition readable_frame :: "FrameBuffer \<Rightarrow> ptr option \<times> FrameBuffer" where
  "readable_frame fb =
     (if readable_count fb = 0 then (None, fb)
      else (Some (Ptr (unat (read_frame fb)) 0), fb))"

definition readable :: "FrameBuffer \<Rightarrow> bool" where
  "readable fb \<longleftrightarrow> readable_count fb > 0"

definition read :: "size_t \<Rightarrow> FrameBuffer \<Rightarrow> FrameBuffer" where
  "read kNumFrames fb =
     fb \<lparr> read_frame := (read_frame fb + 1) mod kNumFrames,
          readable_count := readable_count fb - 1 \<rparr>"


section \<open>Legal use of the pool by a producer and a consumer\<close>

text \<open>
  What the two clients of a \<open>FrameBuffer\<close> do to it, one call at a time:
  \<^item> \<open>Draw c\<close>: the producer obtains a handle from \<open>writeable_frame\<close> and leaves the
    bytes \<open>c\<close> in the slot it points to;
  \<^item> \<open>Written\<close>: the producer calls \<open>written()\<close>, having a handle from
    \<open>writeable_frame\<close>;
  \<^item> \<open>Read\<close>: the consumer calls \<open>read()\<close>, having peeked a slot with
    \<open>readable_frame\<close> and drained it.
  A call made without its handle is illegal and is the value \<open>None\<close>.
\<close>

datatype fb_op = Draw "uint8_t list" | Written | Read

fun fb_step :: "size_t \<Rightarrow> fb_op \<Rightarrow> FrameBuffer \<Rightarrow> FrameBuffer option" where
  "fb_step N (Draw c) fb =
     (case fst (writeable_frame N fb) of
        None \<Rightarrow> None
      | Some p \<Rightarrow> Some (fb \<lparr> frames := (frames fb)[slot p := c] \<rparr>))"
| "fb_step N Written fb =
     (case fst (writeable_frame N fb) of
        None \<Rightarrow> None
      | Some p \<Rightarrow> Some (written N fb))"
| "fb_step N Read fb =
     (case fst (readable_frame fb) of
        None \<Rightarrow> None
      | Some p \<Rightarrow> Some (read N fb))"

fun run :: "size_t \<Rightarrow> FrameBuffer \<Rightarrow> fb_op list \<Rightarrow> FrameBuffer option" where
  "run N fb [] = Some fb"
| "run N fb (c # cs) =
     (case fb_step N c fb of None \<Rightarrow> None | Some fb' \<Rightarrow> run N fb' cs)"

text \<open>
  The frames published by the \<open>written()\<close> calls of a run, oldest first. Each is
  what the producer holds at the moment of the call: the handle \<open>writeable_frame\<close>
  returns to it, and the content of the slot that handle points into.
\<close>

fun committed :: "size_t \<Rightarrow> FrameBuffer \<Rightarrow> fb_op list \<Rightarrow> (ptr \<times> uint8_t list) list" where
  "committed N fb [] = []"
| "committed N fb (c # cs) =
     (case fb_step N c fb of
        None \<Rightarrow> []
      | Some fb' \<Rightarrow>
          (if c = Written
           then (case fst (writeable_frame N fb) of
                   None \<Rightarrow> []
                 | Some p \<Rightarrow> [(p, frames fb ! slot p)])
           else [])
          @ committed N fb' cs)"

text \<open>
  The frames given back by the \<open>read()\<close> calls of a run, oldest first. Each is
  what the consumer was shown and has drained at the moment of the call: the handle
  \<open>readable_frame\<close> returns to it, and the content of the slot that handle points
  into.
\<close>

fun released :: "size_t \<Rightarrow> FrameBuffer \<Rightarrow> fb_op list \<Rightarrow> (ptr \<times> uint8_t list) list" where
  "released N fb [] = []"
| "released N fb (c # cs) =
     (case fb_step N c fb of
        None \<Rightarrow> []
      | Some fb' \<Rightarrow>
          (if c = Read
           then (case fst (readable_frame fb) of
                   None \<Rightarrow> []
                 | Some p \<Rightarrow> [(p, frames fb ! slot p)])
           else [])
          @ released N fb' cs)"

text \<open>The ring invariant, read on natural numbers.\<close>

definition ring_inv :: "size_t \<Rightarrow> FrameBuffer \<Rightarrow> bool" where
  "ring_inv N fb \<longleftrightarrow>
     length (frames fb) = unat N \<and>
     unat (write_frame fb) < unat N \<and>
     unat (read_frame fb) < unat N \<and>
     unat (readable_count fb) \<le> unat N \<and>
     unat (write_frame fb) = (unat (read_frame fb) + unat (readable_count fb)) mod unat N"

text \<open>
  The published frames not yet given back, oldest first, each as the pointer to the
  start of its slot with the slot's content.
\<close>

definition pending :: "size_t \<Rightarrow> FrameBuffer \<Rightarrow> (ptr \<times> uint8_t list) list" where
  "pending N fb =
     map (\<lambda>i. (Ptr ((unat (read_frame fb) + i) mod unat N) 0,
               frames fb ! ((unat (read_frame fb) + i) mod unat N)))
       [0 ..< unat (readable_count fb)]"


section \<open>page_display_driver.h: \<open>PagedDisplayDriver<display_driver>\<close>\<close>

text \<open>
  The template argument \<open>display_driver\<close> is a class of constants and static member
  functions over file-level state of its own, of type \<open>'d\<close> here. \<open>SendPage\<close> reads
  the page through the pointer it is given, so it also takes the memory the pointer
  points into; it is only ever called with a non-null pointer.
\<close>

record 'd display_driver =
  kFrameSize :: size_t
  kNumPages :: size_t
  kPageSize :: size_t
  dd_Init :: "'d \<Rightarrow> 'd"
  dd_Flush :: "'d \<Rightarrow> 'd"
  SendPage :: "uint_fast8_t \<Rightarrow> ptr \<Rightarrow> uint8_t list list \<Rightarrow> 'd \<Rightarrow> bool \<times> 'd"

text \<open>
  The members \<open>frame_\<close> and \<open>page_\<close>, together with the state \<open>hw\<close> of the
  \<open>display_driver\<close> behind them and the trace \<open>sent\<close> of the \<open>SendPage\<close> calls made so
  far, oldest first (index and pointer of each call). No function reads the trace.
\<close>

record 'd PagedDisplayDriver =
  frame :: "ptr option"
  page :: size_t
  hw :: 'd
  sent :: "(uint_fast8_t \<times> ptr) list"

definition driver_Init :: "'d display_driver \<Rightarrow> 'd PagedDisplayDriver \<Rightarrow> 'd PagedDisplayDriver" where
  "driver_Init D d = d \<lparr> hw := dd_Init D (hw d), frame := None, page := 0 \<rparr>"

definition driver_Flush ::
  "'d display_driver \<Rightarrow> 'd PagedDisplayDriver \<Rightarrow> bool \<times> 'd PagedDisplayDriver" where
  "driver_Flush D d = (frame d = None, d \<lparr> hw := dd_Flush D (hw d) \<rparr>)"

definition Begin :: "ptr option \<Rightarrow> 'd PagedDisplayDriver \<Rightarrow> 'd PagedDisplayDriver" where
  "Begin f d = d \<lparr> frame := f, page := 0 \<rparr>"

definition frame_valid :: "'d PagedDisplayDriver \<Rightarrow> bool" where
  "frame_valid d \<longleftrightarrow> frame d \<noteq> None"

definition Update ::
  "'d display_driver \<Rightarrow> uint8_t list list \<Rightarrow> 'd PagedDisplayDriver \<Rightarrow> 'd PagedDisplayDriver" where
  "Update D mem d =
     (case frame d of
        None \<Rightarrow> d
      | Some f \<Rightarrow>
          (let (accepted, h) = SendPage D (ucast (page d)) f mem (hw d);
               d1 = d \<lparr> hw := h, sent := sent d @ [(ucast (page d), f)] \<rparr>
           in if accepted then
                (let d2 = d1 \<lparr> frame := Some (ptr_add f (unat (kPageSize D))),
                               page := page d1 + 1 \<rparr>
                 in if page d2 \<ge> kNumPages D then d2 \<lparr> frame := None \<rparr> else d2)
              else d1))"

section \<open>display.h, display.cpp: namespace \<open>display\<close> and the frame macros\<close>

text \<open>
  The two globals of the namespace. \<open>display.cpp\<close> instantiates them as
  \<open>FrameBuffer<SH1106_128x64_Driver::kFrameSize, 2>\<close> and
  \<open>PagedDisplayDriver<SH1106_128x64_Driver>\<close>; the functions below take the driver
  class \<open>D\<close> and the number of frames \<open>N\<close> as arguments.
\<close>

record 'd display =
  frame_buffer :: FrameBuffer
  driver :: "'d PagedDisplayDriver"

definition display_kNumFrames :: size_t where
  "display_kNumFrames = 2"

definition display_Init :: "'d display_driver \<Rightarrow> size_t \<Rightarrow> 'd display \<Rightarrow> 'd display" where
  "display_Init D N s =
     s \<lparr> frame_buffer := Init (kFrameSize D) N, driver := driver_Init D (driver s) \<rparr>"

definition display_Flush :: "'d display_driver \<Rightarrow> size_t \<Rightarrow> 'd display \<Rightarrow> 'd display" where
  "display_Flush D N s =
     (let (idle, d) = driver_Flush D (driver s);
          s1 = s \<lparr> driver := d \<rparr>
      in if idle then s1 \<lparr> frame_buffer := read N (frame_buffer s1) \<rparr> else s1)"

definition display_Update :: "'d display_driver \<Rightarrow> 'd display \<Rightarrow> 'd display" where
  "display_Update D s =
     (if frame_valid (driver s) then
        s \<lparr> driver := Update D (frames (frame_buffer s)) (driver s) \<rparr>
      else if readable (frame_buffer s) then
        (let (p, fb) = readable_frame (frame_buffer s)
         in s \<lparr> frame_buffer := fb, driver := Begin p (driver s) \<rparr>)
      else s)"

text \<open>
  One pass through the inner \<open>do { ... } while (!frame && wait)\<close> of
  \<open>GRAPHICS_BEGIN_FRAME(wait)\<close>, on the local \<open>frame\<close> and the globals.
\<close>

definition begin_frame_probe :: "size_t \<Rightarrow> ptr option \<times> 'd display \<Rightarrow> ptr option \<times> 'd display" where
  "begin_frame_probe N =
     (\<lambda>(frame, s).
        if writeable N (frame_buffer s) then
          (let (p, fb) = writeable_frame N (frame_buffer s)
           in (p, s \<lparr> frame_buffer := fb \<rparr>))
        else (frame, s))"

text \<open>The inner loop itself. A loop that never leaves is the value \<open>None\<close>.\<close>

partial_function (option) begin_frame_loop ::
  "size_t \<Rightarrow> bool \<Rightarrow> ptr option \<times> 'd display \<Rightarrow> (ptr option \<times> 'd display) option" where
  "begin_frame_loop N wait st =
     (let st' = begin_frame_probe N st
      in if fst st' = None \<and> wait then begin_frame_loop N wait st' else Some st')"

datatype outcome = Drawn | Dropped

text \<open>
  \<open>GRAPHICS_BEGIN_FRAME(wait); ... GRAPHICS_END_FRAME();\<close> as one operation.
  \<open>weegfx::Graphics\<close> is declared in the repository but not implemented there: what
  \<open>graphics.Begin(frame, CLEAR_FRAME_ENABLE)\<close>, the drawing calls between the two
  macros and \<open>graphics.End()\<close> leave in the frame they are handed is the argument
  \<open>draw\<close>, a function of the frame's previous content.
\<close>

definition graphics_frame ::
  "size_t \<Rightarrow> bool \<Rightarrow> (uint8_t list \<Rightarrow> uint8_t list) \<Rightarrow> 'd display
     \<Rightarrow> (outcome \<times> 'd display) option" where
  "graphics_frame N wait draw s =
     (case begin_frame_loop N wait (None, s) of
        None \<Rightarrow> None
      | Some (None, s1) \<Rightarrow> Some (Dropped, s1)
      | Some (Some p, s1) \<Rightarrow>
          (let fb = frame_buffer s1;
               fb1 = fb \<lparr> frames := (frames fb)[slot p := draw (frames fb ! slot p)] \<rparr>
           in Some (Drawn, s1 \<lparr> frame_buffer := written N fb1 \<rparr>)))"

section \<open>ILI9341_Driver.h, ILI9341_Driver.cpp\<close>

text \<open>
  The \<open>ILI9341_t3\<close> object \<open>tft\<close> belongs to a library outside the repository: it is
  modelled by the calls made on it, oldest first. The colours are the library's
  constants, kept symbolic.
\<close>

datatype colour = ILI9341_BLACK | ILI9341_WHITE | ILI9341_DARKGREY

datatype tft_call =
    Tft_begin
  | Tft_setRotation int
  | Tft_fillScreen colour
  | Tft_fillRect int int int int colour
  | Tft_drawRect int int int int colour

record ILI9341 =
  tft :: "tft_call list"
  page_buffer :: "uint8_t list list"
  page_dirty :: "bool list"
  display_initialized :: bool
  flip_mode :: bool

definition ILI9341_BG_COLOR :: colour where "ILI9341_BG_COLOR = ILI9341_BLACK"
definition ILI9341_FG_COLOR :: colour where "ILI9341_FG_COLOR = ILI9341_WHITE"
definition DISPLAY_SCALE :: int where "DISPLAY_SCALE = 2"
definition DISPLAY_OFFSET_X :: int where "DISPLAY_OFFSET_X = (320 - 128 * DISPLAY_SCALE) div 2"
definition DISPLAY_OFFSET_Y :: int where "DISPLAY_OFFSET_Y = (240 - 64 * DISPLAY_SCALE) div 2"

definition ILI9341_kFrameSize :: size_t where "ILI9341_kFrameSize = 128 * 64 div 8"
definition ILI9341_kNumPages :: size_t where "ILI9341_kNumPages = 8"
definition ILI9341_kPageSize :: size_t where "ILI9341_kPageSize = ILI9341_kFrameSize div ILI9341_kNumPages"
definition kSourceWidth :: int where "kSourceWidth = 128"
definition kSourceHeight :: int where "kSourceHeight = 64"

definition ILI9341_Init :: "ILI9341 \<Rightarrow> ILI9341" where
  "ILI9341_Init h =
     (let x = DISPLAY_OFFSET_X - 1;
          y = DISPLAY_OFFSET_Y - 1;
          w = kSourceWidth * DISPLAY_SCALE + 2;
          ht = kSourceHeight * DISPLAY_SCALE + 2
      in h \<lparr> tft := tft h @ [Tft_begin,
                              Tft_setRotation (if flip_mode h then 2 else 0),
                              Tft_fillScreen ILI9341_BG_COLOR,
                              Tft_drawRect x y w ht ILI9341_DARKGREY],
             page_dirty := replicate (unat ILI9341_kNumPages) False,
             page_buffer := replicate (unat ILI9341_kNumPages)
                              (replicate (unat ILI9341_kPageSize) 0),
             display_initialized := True \<rparr>)"

definition ILI9341_Flush :: "ILI9341 \<Rightarrow> ILI9341" where
  "ILI9341_Flush h = h"

definition DrawScaledPixel :: "int \<Rightarrow> int \<Rightarrow> bool \<Rightarrow> ILI9341 \<Rightarrow> ILI9341" where
  "DrawScaledPixel x0 y0 on h =
     (let x = (if flip_mode h then kSourceWidth - 1 - x0 else x0);
          y = (if flip_mode h then kSourceHeight - 1 - y0 else y0);
          screen_x = DISPLAY_OFFSET_X + x * DISPLAY_SCALE;
          screen_y = DISPLAY_OFFSET_Y + y * DISPLAY_SCALE;
          color = (if on then ILI9341_FG_COLOR else ILI9341_BG_COLOR)
      in h \<lparr> tft := tft h @ [Tft_fillRect screen_x screen_y DISPLAY_SCALE DISPLAY_SCALE color] \<rparr>)"

text \<open>
  \<open>data[i]\<close>. The paging driver hands out pointers to whole pages inside a slot; a
  read that leaves the slot has no meaning the model could keep and yields 0.
\<close>

definition load :: "uint8_t list list \<Rightarrow> ptr \<Rightarrow> nat \<Rightarrow> uint8_t" where
  "load mem p i =
     (if slot p < length mem \<and> offset p + i < length (mem ! slot p)
      then mem ! slot p ! (offset p + i) else 0)"

definition ILI9341_SendPage ::
  "uint_fast8_t \<Rightarrow> ptr \<Rightarrow> uint8_t list list \<Rightarrow> ILI9341 \<Rightarrow> bool \<times> ILI9341" where
  "ILI9341_SendPage index data mem h =
     (if \<not> display_initialized h then (False, h)
      else if ucast index \<ge> ILI9341_kNumPages then (False, h)
      else
        (let h1 = h \<lparr> page_buffer := (page_buffer h)
                         [unat index := map (load mem data) [0 ..< unat ILI9341_kPageSize]] \<rparr>;
             h2 = h1 \<lparr> page_dirty := (page_dirty h1)[unat index := True] \<rparr>;
             page_y_start = int (unat index) * 8;
             h3 = fold (\<lambda>col. fold (\<lambda>b.
                     DrawScaledPixel (int col) (page_y_start + int b)
                       (drop_bit b (load mem data col) AND 1 \<noteq> 0))
                     [0 ..< 8])
                   [0 ..< 128] h2
         in (True, h3)))"

definition ILI9341_Driver :: "ILI9341 display_driver" where
  "ILI9341_Driver =
     \<lparr> kFrameSize = ILI9341_kFrameSize,
       kNumPages = ILI9341_kNumPages,
       kPageSize = ILI9341_kPageSize,
       dd_Init = ILI9341_Init,
       dd_Flush = ILI9341_Flush,
       SendPage = ILI9341_SendPage \<rparr>"

section \<open>The state at power-on\<close>

text \<open>
  The file-level statics of \<open>ILI9341_Driver.cpp\<close> as the C++ runtime leaves them before
  \<open>setup()\<close> runs: zeroed arrays, \<open>display_initialized = false\<close>,
  \<open>flip_mode = false\<close>, and no call made on \<open>tft\<close> yet.
\<close>

definition ILI9341_static :: ILI9341 where
  "ILI9341_static =
     \<lparr> tft = [],
       page_buffer = replicate (unat ILI9341_kNumPages) (replicate (unat ILI9341_kPageSize) 0),
       page_dirty = replicate (unat ILI9341_kNumPages) False,
       display_initialized = False,
       flip_mode = False \<rparr>"

text \<open>
  The globals \<open>display::frame_buffer\<close> and \<open>display::driver\<close> before \<open>setup()\<close> runs
  (zero-initialised), over a driver state \<open>h\<close>.
\<close>

definition display_static :: "'d display_driver \<Rightarrow> size_t \<Rightarrow> 'd \<Rightarrow> 'd display" where
  "display_static D N h =
     \<lparr> frame_buffer = \<lparr> frames = replicate (unat N) (replicate (unat (kFrameSize D)) 0),
                        write_frame = 0, read_frame = 0, readable_count = 0 \<rparr>,
       driver = \<lparr> frame = None, page = 0, hw = h, sent = [] \<rparr> \<rparr>"

text \<open>
  The pipeline after \<open>display::Init()\<close> and two frames published with no
  \<open>display::Update()\<close> or \<open>display::Flush()\<close> in between: the pool is full and the
  paging driver holds no frame.
\<close>

definition two_frames_queued :: "ILI9341 display" where
  "two_frames_queued =
     (let s0 = display_Init ILI9341_Driver display_kNumFrames
                 (display_static ILI9341_Driver display_kNumFrames ILI9341_static)
      in s0 \<lparr> frame_buffer :=
                written display_kNumFrames (written display_kNumFrames (frame_buffer s0)) \<rparr>)"

text \<open>
  The pipeline after \<open>display::Init()\<close> and one published frame, and then after eight
  calls of \<open>display::Update()\<close>: the first begins the frame, the next seven send
  pages 0 to 6, and page 7, the last, is due.
\<close>

definition first_frame_published :: "ILI9341 display" where
  "first_frame_published =
     (let s0 = display_Init ILI9341_Driver display_kNumFrames
                 (display_static ILI9341_Driver display_kNumFrames ILI9341_static)
      in s0 \<lparr> frame_buffer := written display_kNumFrames (frame_buffer s0) \<rparr>)"

definition last_page_due :: "ILI9341 display" where
  "last_page_due = (display_Update ILI9341_Driver ^^ 8) first_frame_published"

text \<open>
  The pipeline of a program that never calls \<open>display::Init()\<close>: from the state at
  power-on, one frame is published and \<open>display::Update()\<close> begins it, the panel still
  uninitialised.
\<close>

definition cold_display :: "ILI9341 display" where
  "cold_display =
     (let s0 = display_static ILI9341_Driver display_kNumFrames ILI9341_static
      in display_Update ILI9341_Driver
           (s0 \<lparr> frame_buffer := written display_kNumFrames (frame_buffer s0) \<rparr>))"

section \<open>Main.cpp: \<open>setup()\<close> and \<open>loop()\<close>\<close>

text \<open>
  \<open>setup()\<close> initialises the display subsystem; the serial output is left out.
  The globals it starts from are those of the state at power-on.
\<close>

definition power_on :: "ILI9341 display" where
  "power_on = display_static ILI9341_Driver display_kNumFrames ILI9341_static"

definition Main_setup :: "ILI9341 display \<Rightarrow> ILI9341 display" where
  "Main_setup s = display_Init ILI9341_Driver display_kNumFrames s"

text \<open>
  One pass of \<open>loop()\<close>. The clock is outside the model: the argument says whether
  the redraw interval has elapsed in this pass, and if it has, what the drawing calls
  between \<open>GRAPHICS_BEGIN_FRAME(true)\<close> and \<open>GRAPHICS_END_FRAME()\<close> leave in the frame
  (the animation state only feeds those calls). A pass in which a redraw is due
  draws the frame, then calls \<open>display::Update()\<close>, \<open>display::Flush()\<close> and, like
  every pass, \<open>display::Update()\<close>. A pass that never returns is the value \<open>None\<close>.
\<close>

definition Main_loop ::
  "(uint8_t list \<Rightarrow> uint8_t list) option \<Rightarrow> ILI9341 display \<Rightarrow> ILI9341 display option" where
  "Main_loop due s =
     (case due of
        None \<Rightarrow> Some (display_Update ILI9341_Driver s)
      | Some draw \<Rightarrow>
          (case graphics_frame display_kNumFrames True draw s of
             None \<Rightarrow> None
           | Some (r, s1) \<Rightarrow>
               (let s2 = display_Update ILI9341_Driver s1;
                    s3 = display_Flush ILI9341_Driver display_kNumFrames s2
                in Some (display_Update ILI9341_Driver s3))))"

text \<open>The passes of \<open>loop()\<close> one after another, as the runtime calls it.\<close>

fun Main_run ::
  "(uint8_t list \<Rightarrow> uint8_t list) option list \<Rightarrow> ILI9341 display \<Rightarrow> ILI9341 display option" where
  "Main_run [] s = Some s"
| "Main_run (due # dues) s =
     (case Main_loop due s of None \<Rightarrow> None | Some s' \<Rightarrow> Main_run dues s')"

section \<open>The ring of slots\<close>

lemma unat_succ_lt: "(x::size_t) < N \<Longrightarrow> unat (x + 1) = Suc (unat x)"
proof -
  assume "x < N"
  then have "unat x < unat N" by (simp add: word_less_nat_alt)
  moreover have "unat N < 2 ^ 32" using unsigned_less [of N, where 'a = nat] by simp
  ultimately have "unat x + unat (1::size_t) < 2 ^ LENGTH(32)" by simp
  then have "unat (x + 1) = unat x + unat (1::size_t)" by (simp only: unat_add_lem)
  then show ?thesis by simp
qed

lemma mod_ring_neq:
  fixes n :: nat
  assumes "i < j" "j < n"
  shows "(r + i) mod n \<noteq> (r + j) mod n"
proof
  assume "(r + i) mod n = (r + j) mod n"
  then have "(r + j) mod n = (r + i) mod n" by simp
  then have "n dvd (r + j) - (r + i)"
    using assms by (simp add: mod_eq_dvd_iff_nat)
  then have "n dvd j - i" by simp
  moreover have "0 < j - i" "j - i < n" using assms by simp_all
  ultimately show False by (simp add: nat_dvd_not_less)
qed

lemma ring_inv_Init: "0 < N \<Longrightarrow> ring_inv N (Init F N)"
  by (simp add: ring_inv_def Init_def unat_gt_0)

lemma writeable_frame_Some:
  "fst (writeable_frame N fb) = Some p \<longleftrightarrow>
     unat (readable_count fb) < unat N \<and> p = Ptr (unat (write_frame fb)) 0"
  by (auto simp: writeable_frame_def word_le_nat_alt)

lemma readable_frame_Some:
  "fst (readable_frame fb) = Some p \<longleftrightarrow>
     readable_count fb \<noteq> 0 \<and> p = Ptr (unat (read_frame fb)) 0"
  by (auto simp: readable_frame_def)

lemma written_unat:
  assumes "ring_inv N fb" "unat (readable_count fb) < unat N"
  shows "unat (write_frame (written N fb)) = (unat (write_frame fb) + 1) mod unat N"
    and "unat (readable_count (written N fb)) = unat (readable_count fb) + 1"
    and "read_frame (written N fb) = read_frame fb"
    and "frames (written N fb) = frames fb"
proof -
  have "write_frame fb < N" "readable_count fb < N"
    using assms by (simp_all add: ring_inv_def word_less_nat_alt)
  then show "unat (write_frame (written N fb)) = (unat (write_frame fb) + 1) mod unat N"
    and "unat (readable_count (written N fb)) = unat (readable_count fb) + 1"
    by (simp_all add: written_def unat_mod unat_succ_lt)
qed (simp_all add: written_def)

lemma read_unat:
  assumes "ring_inv N fb" "readable_count fb \<noteq> 0"
  shows "unat (read_frame (read N fb)) = (unat (read_frame fb) + 1) mod unat N"
    and "unat (readable_count (read N fb)) = unat (readable_count fb) - 1"
    and "write_frame (read N fb) = write_frame fb"
    and "frames (read N fb) = frames fb"
proof -
  have "read_frame fb < N"
    using assms by (simp add: ring_inv_def word_less_nat_alt)
  then show "unat (read_frame (read N fb)) = (unat (read_frame fb) + 1) mod unat N"
    and "unat (readable_count (read N fb)) = unat (readable_count fb) - 1"
    using assms(2) by (simp_all add: read_def unat_mod unat_succ_lt unat_minus_one)
qed (simp_all add: read_def)

lemma ring_inv_written:
  assumes "ring_inv N fb" "unat (readable_count fb) < unat N"
  shows "ring_inv N (written N fb)"
proof -
  have "0 < unat N" using assms by simp
  then show ?thesis
    using assms written_unat [OF assms]
    by (simp add: ring_inv_def mod_Suc_eq add.assoc [symmetric] mod_simps)
qed

lemma ring_read_nat:
  fixes n :: nat
  assumes "0 < c" "w = (r + c) mod n"
  shows "w = ((r + 1) mod n + (c - 1)) mod n"
proof -
  have "r + c = (r + 1) + (c - 1)" using assms(1) by simp
  then have "(r + c) mod n = ((r + 1) + (c - 1)) mod n" by simp
  also have "\<dots> = ((r + 1) mod n + (c - 1)) mod n" by (simp only: mod_add_left_eq)
  finally show ?thesis using assms(2) by simp
qed

lemma ring_inv_read:
  assumes "ring_inv N fb" "readable_count fb \<noteq> 0"
  shows "ring_inv N (read N fb)"
proof -
  have pos: "0 < unat (readable_count fb)" using assms(2) by (simp add: unat_gt_0)
  have w: "unat (write_frame fb) = (unat (read_frame fb) + unat (readable_count fb)) mod unat N"
    and le: "unat (readable_count fb) \<le> unat N"
    and len: "length (frames fb) = unat N"
    and wlt: "unat (write_frame fb) < unat N"
    using assms(1) by (simp_all add: ring_inv_def)
  have n: "0 < unat N" using le pos by simp
  note r = read_unat [OF assms]
  have "unat (write_frame (read N fb))
        = (unat (read_frame (read N fb)) + unat (readable_count (read N fb))) mod unat N"
    unfolding r using ring_read_nat [OF pos w] .
  moreover have "unat (read_frame (read N fb)) < unat N" unfolding r using n by simp
  moreover have "unat (readable_count (read N fb)) \<le> unat N" unfolding r using le by simp
  ultimately show ?thesis using len wlt by (simp add: ring_inv_def r)
qed

lemma ring_inv_step:
  "ring_inv N fb \<Longrightarrow> fb_step N c fb = Some fb' \<Longrightarrow> ring_inv N fb'"
proof (cases c)
  case (Draw x)
  assume "ring_inv N fb" "fb_step N c fb = Some fb'"
  then show ?thesis using Draw
    by (auto simp: ring_inv_def split: option.splits)
next
  case Written
  assume "ring_inv N fb" "fb_step N c fb = Some fb'"
  then show ?thesis using Written
    by (auto simp: writeable_frame_Some ring_inv_written split: option.splits)
next
  case Read
  assume "ring_inv N fb" "fb_step N c fb = Some fb'"
  then show ?thesis using Read
    by (auto simp: readable_frame_Some ring_inv_read split: option.splits)
qed


lemma pending_Draw:
  assumes "ring_inv N fb" "unat (readable_count fb) < unat N"
  shows "pending N (fb \<lparr> frames := (frames fb)[unat (write_frame fb) := c] \<rparr>) = pending N fb"
proof -
  have w: "unat (write_frame fb) = (unat (read_frame fb) + unat (readable_count fb)) mod unat N"
    using assms(1) by (simp add: ring_inv_def)
  have "unat (write_frame fb) \<noteq> (unat (read_frame fb) + i) mod unat N"
    if "i < unat (readable_count fb)" for i
    unfolding w using mod_ring_neq [OF that assms(2)] by (rule not_sym)
  then show ?thesis by (simp add: pending_def)
qed

lemma pending_written:
  assumes "ring_inv N fb" "unat (readable_count fb) < unat N"
  shows "pending N (written N fb)
         = pending N fb @ [(Ptr (unat (write_frame fb)) 0, frames fb ! unat (write_frame fb))]"
proof -
  have w: "unat (write_frame fb) = (unat (read_frame fb) + unat (readable_count fb)) mod unat N"
    using assms(1) by (simp add: ring_inv_def)
  show ?thesis
    by (simp add: pending_def written_unat [OF assms] w)
qed

lemma pending_read:
  assumes "ring_inv N fb" "readable_count fb \<noteq> 0"
  shows "pending N fb
         = (Ptr (unat (read_frame fb)) 0, frames fb ! unat (read_frame fb))
           # pending N (read N fb)"
proof -
  have pos: "0 < unat (readable_count fb)" using assms(2) by (simp add: unat_gt_0)
  have r: "unat (read_frame fb) < unat N" using assms(1) by (simp add: ring_inv_def)
  have "[0 ..< unat (readable_count fb)] = 0 # map Suc [0 ..< unat (readable_count fb) - 1]"
    using pos by (metis Suc_pred' map_Suc_upt upt_conv_Cons)
  then have "pending N fb
      = (Ptr (unat (read_frame fb) mod unat N) 0,
         frames fb ! (unat (read_frame fb) mod unat N))
      # map (\<lambda>i. (Ptr ((unat (read_frame fb) + Suc i) mod unat N) 0,
                  frames fb ! ((unat (read_frame fb) + Suc i) mod unat N)))
          [0 ..< unat (readable_count fb) - 1]"
    by (simp add: pending_def comp_def)
  moreover have "(unat (read_frame fb) + Suc i) mod unat N
      = ((unat (read_frame fb) + 1) mod unat N + i) mod unat N" for i
    by (simp add: mod_simps)
  ultimately show ?thesis
    using r by (simp add: pending_def read_unat [OF assms])
qed

lemma fifo_general:
  "ring_inv N fb \<Longrightarrow>
   released N fb cs = take (length (released N fb cs)) (pending N fb @ committed N fb cs)"
proof (induction cs arbitrary: fb)
  case Nil
  show ?case by simp
next
  case (Cons c cs)
  show ?case
  proof (cases "fb_step N c fb")
    case None
    then show ?thesis by simp
  next
    case (Some fb')
    have inv': "ring_inv N fb'" using ring_inv_step [OF Cons.prems Some] .
    note IH = Cons.IH [OF inv']
    show ?thesis
    proof (cases c)
      case (Draw x)
      then have "pending N fb' = pending N fb"
        using Some Cons.prems
        by (auto simp: writeable_frame_Some pending_Draw split: option.splits)
      then show ?thesis using IH Some Draw by simp
    next
      case Written
      then obtain p where p: "fst (writeable_frame N fb) = Some p" and fb': "fb' = written N fb"
        using Some by (auto split: option.splits)
      have q: "p = Ptr (unat (write_frame fb)) 0" "unat (readable_count fb) < unat N"
        using p by (simp_all add: writeable_frame_Some)
      have "pending N fb' = pending N fb @ [(p, frames fb ! slot p)]"
        using pending_written [OF Cons.prems q(2)] by (simp add: fb' q(1))
      then show ?thesis using IH Some Written p by simp
    next
      case Read
      then obtain p where p: "fst (readable_frame fb) = Some p" and fb': "fb' = read N fb"
        using Some by (auto split: option.splits)
      have q: "p = Ptr (unat (read_frame fb)) 0" "readable_count fb \<noteq> 0"
        using p by (simp_all add: readable_frame_Some)
      have "pending N fb = (p, frames fb ! slot p) # pending N fb'"
        using pending_read [OF Cons.prems q(2)] by (simp add: fb' q(1))
      then show ?thesis using IH Some Read p by simp
    qed
  qed
qed

lemma pending_Init: "pending N (Init F N) = []"
  by (simp add: pending_def Init_def)

lemma ring_inv_run:
  "ring_inv N fb \<Longrightarrow> run N fb cs = Some fb' \<Longrightarrow> ring_inv N fb'"
proof (induction cs arbitrary: fb)
  case Nil
  then show ?case by simp
next
  case (Cons c cs)
  then show ?case
    by (auto split: option.splits dest: ring_inv_step)
qed

lemma ring_distinct:
  assumes "ring_inv N fb" "0 < unat (readable_count fb)" "unat (readable_count fb) < unat N"
  shows "unat (write_frame fb) \<noteq> unat (read_frame fb)"
proof -
  have "unat (read_frame fb) < unat N"
    and w: "unat (write_frame fb) = (unat (read_frame fb) + unat (readable_count fb)) mod unat N"
    using assms(1) by (simp_all add: ring_inv_def)
  then have "unat (read_frame fb) = (unat (read_frame fb) + 0) mod unat N" by simp
  then show ?thesis
    using mod_ring_neq [OF assms(2,3), of "unat (read_frame fb)" ] w by metis
qed

lemma run_take:
  "run N fb cs = Some fb' \<Longrightarrow> \<exists>fb''. run N fb (take n cs) = Some fb''"
proof (induction cs arbitrary: fb n)
  case Nil
  then show ?case by simp
next
  case (Cons c cs)
  show ?case
  proof (cases n)
    case 0
    then show ?thesis by simp
  next
    case (Suc m)
    then show ?thesis using Cons by (auto split: option.splits)
  qed
qed

lemma count_balance:
  "ring_inv N fb \<Longrightarrow> run N fb cs = Some fb' \<Longrightarrow>
   unat (readable_count fb') + count_list cs Read
     = unat (readable_count fb) + count_list cs Written"
proof (induction cs arbitrary: fb)
  case Nil
  then show ?case by simp
next
  case (Cons c cs)
  from Cons.prems(2) obtain fb1 where s: "fb_step N c fb = Some fb1" and r: "run N fb1 cs = Some fb'"
    by (auto split: option.splits)
  have inv1: "ring_inv N fb1" using ring_inv_step [OF Cons.prems(1) s] .
  note IH = Cons.IH [OF inv1 r]
  show ?case
  proof (cases c)
    case (Draw x)
    then have "readable_count fb1 = readable_count fb"
      using s by (auto split: option.splits)
    then show ?thesis using IH Draw by simp
  next
    case Written
    then have "unat (readable_count fb1) = unat (readable_count fb) + 1"
      using s Cons.prems(1) by (auto simp: writeable_frame_Some written_unat split: option.splits)
    then show ?thesis using IH Written by simp
  next
    case Read
    then have "unat (readable_count fb1) = unat (readable_count fb) - 1"
      and "0 < unat (readable_count fb)"
      using s Cons.prems(1)
      by (auto simp: readable_frame_Some read_unat unat_gt_0 split: option.splits)
    then show ?thesis using IH Read by simp
  qed
qed

lemma replicate_unfold: "replicate n x = (if n = 0 then [] else x # replicate (n - 1) x)"
  by (cases n) simp_all

lemmas fb_eval = Init_def writeable_frame_def readable_frame_def written_def read_def
  word_le_nat_alt word_less_nat_alt


section \<open>The paging driver and the display functions, case by case\<close>

lemma Update_idle: "frame d = None \<Longrightarrow> Update D mem d = d"
  by (simp add: Update_def)

lemma Update_reject:
  assumes "frame d = Some f" "\<not> fst (SendPage D (ucast (page d)) f mem (hw d))"
  shows "Update D mem d
         = d \<lparr> hw := snd (SendPage D (ucast (page d)) f mem (hw d)),
               sent := sent d @ [(ucast (page d), f)] \<rparr>"
  using assms by (simp add: Update_def split_def Let_def)

lemma Update_accept:
  assumes "frame d = Some f" "fst (SendPage D (ucast (page d)) f mem (hw d))"
  shows "Update D mem d
         = d \<lparr> hw := snd (SendPage D (ucast (page d)) f mem (hw d)),
               sent := sent d @ [(ucast (page d), f)],
               frame := (if page d + 1 \<ge> kNumPages D then None
                         else Some (ptr_add f (unat (kPageSize D)))),
               page := page d + 1 \<rparr>"
  using assms by (simp add: Update_def split_def Let_def)

lemma display_Flush_idle:
  "frame (driver s) = None \<Longrightarrow>
   display_Flush D N s
   = s \<lparr> driver := (driver s) \<lparr> hw := dd_Flush D (hw (driver s)) \<rparr>,
         frame_buffer := read N (frame_buffer s) \<rparr>"
  by (simp add: display_Flush_def driver_Flush_def Let_def)

lemma display_Flush_busy:
  "frame (driver s) \<noteq> None \<Longrightarrow>
   display_Flush D N s = s \<lparr> driver := (driver s) \<lparr> hw := dd_Flush D (hw (driver s)) \<rparr> \<rparr>"
  by (cases "frame (driver s)") (simp_all add: display_Flush_def driver_Flush_def Let_def)

lemma display_Update_active:
  "frame (driver s) \<noteq> None \<Longrightarrow>
   display_Update D s = s \<lparr> driver := Update D (frames (frame_buffer s)) (driver s) \<rparr>"
  by (simp add: display_Update_def frame_valid_def)

lemma display_Update_begin:
  "frame (driver s) = None \<Longrightarrow> readable_count (frame_buffer s) \<noteq> 0 \<Longrightarrow>
   display_Update D s
   = s \<lparr> driver := (driver s) \<lparr> frame := Some (Ptr (unat (read_frame (frame_buffer s))) 0),
                                 page := 0 \<rparr> \<rparr>"
  by (simp add: display_Update_def frame_valid_def readable_def readable_frame_def Begin_def
      word_neq_0_conv)

lemma display_Update_idle:
  "frame (driver s) = None \<Longrightarrow> readable_count (frame_buffer s) = 0 \<Longrightarrow>
   display_Update D s = s"
  by (simp add: display_Update_def frame_valid_def readable_def)

lemma unat_max_size_t: "unat (- 1 :: size_t) = 4294967295"
  by (simp add: unsigned_minus_1_eq_mask mask_eq_exp_minus_1)

lemma Update_cases:
  "(Update D mem d = d \<and> frame d = None)
   \<or> (\<exists>f. frame d = Some f
          \<and> sent (Update D mem d) = sent d @ [(ucast (page d), f)]
          \<and> hw (Update D mem d) = snd (SendPage D (ucast (page d)) f mem (hw d))
          \<and> (page (Update D mem d) = page d \<or> page (Update D mem d) = page d + 1))"
proof (cases "frame d")
  case None
  then show ?thesis by (simp add: Update_idle)
next
  case (Some f)
  show ?thesis
  proof (cases "fst (SendPage D (ucast (page d)) f mem (hw d))")
    case True
    show ?thesis using Some by (simp add: Update_accept [OF Some True])
  next
    case False
    show ?thesis using Some by (simp add: Update_reject [OF Some False])
  qed
qed

lemma display_Update_frames:
  "frames (frame_buffer (display_Update D s)) = frames (frame_buffer s)"
  by (simp add: display_Update_def readable_frame_def Let_def)

lemma display_Update_pool:
  "frame_buffer (display_Update D s) = frame_buffer s"
  by (simp add: display_Update_def readable_frame_def Let_def)

lemma unat_page_step: "unat (p + 1 :: size_t) \<le> unat p + 1"
  by (metis Suc_eq_plus1 add.commute le_refl unatSuc unat_0 zero_le)

lemma display_Update_reject:
  assumes "frame (driver s) = Some f"
    and "\<not> fst (SendPage D (ucast (page (driver s))) f (frames (frame_buffer s)) (hw (driver s)))"
  shows "display_Update D s
         = s \<lparr> driver := (driver s)
                 \<lparr> hw := snd (SendPage D (ucast (page (driver s))) f (frames (frame_buffer s))
                               (hw (driver s))),
                   sent := sent (driver s) @ [(ucast (page (driver s)), f)] \<rparr> \<rparr>"
proof -
  have a: "frame (driver s) \<noteq> None" using assms(1) by simp
  show ?thesis
    by (simp add: display_Update_active [OF a] Update_reject [OF assms])
qed

lemma display_Update_sent:
  assumes "frame (driver s) = Some f"
  shows "sent (driver (display_Update D s)) = sent (driver s) @ [(ucast (page (driver s)), f)]"
proof -
  have a: "frame (driver s) \<noteq> None" using assms(1) by simp
  show ?thesis
    using Update_cases [of D "frames (frame_buffer s)" "driver s"] assms
    by (auto simp: display_Update_active [OF a])
qed

lemma display_Update_hw:
  assumes "frame (driver s) = Some f"
  shows "hw (driver (display_Update D s))
         = snd (SendPage D (ucast (page (driver s))) f (frames (frame_buffer s)) (hw (driver s)))"
proof -
  have a: "frame (driver s) \<noteq> None" using assms(1) by simp
  show ?thesis
    using Update_cases [of D "frames (frame_buffer s)" "driver s"] assms
    by (auto simp: display_Update_active [OF a])
qed

lemma retry_steps:
  assumes "frame (driver s) = Some f"
    and "\<forall>i<n. \<not> fst (SendPage D (ucast (page (driver s))) f (frames (frame_buffer s))
                       (hw (driver ((display_Update D ^^ i) s))))"
  shows "frame (driver ((display_Update D ^^ n) s)) = Some f
       \<and> page (driver ((display_Update D ^^ n) s)) = page (driver s)
       \<and> frame_buffer ((display_Update D ^^ n) s) = frame_buffer s
       \<and> sent (driver ((display_Update D ^^ n) s))
           = sent (driver s) @ replicate n (ucast (page (driver s)), f)"
  using assms(2)
proof (induction n)
  case 0
  show ?case using assms(1) by simp
next
  case (Suc n)
  let ?t = "(display_Update D ^^ n) s"
  have IH: "frame (driver ?t) = Some f" "page (driver ?t) = page (driver s)"
    "frame_buffer ?t = frame_buffer s"
    "sent (driver ?t) = sent (driver s) @ replicate n (ucast (page (driver s)), f)"
    using Suc by simp_all
  have rej: "\<not> fst (SendPage D (ucast (page (driver ?t))) f (frames (frame_buffer ?t))
                       (hw (driver ?t)))"
    using Suc.prems IH by simp
  show ?case
    using IH by (simp add: display_Update_reject [OF IH(1) rej] replicate_append_same)
qed

lemma display_Update_accept:
  assumes "frame (driver s) = Some f"
    and "fst (SendPage D (ucast (page (driver s))) f (frames (frame_buffer s)) (hw (driver s)))"
  shows "display_Update D s
         = s \<lparr> driver := (driver s)
                 \<lparr> hw := snd (SendPage D (ucast (page (driver s))) f (frames (frame_buffer s))
                               (hw (driver s))),
                   sent := sent (driver s) @ [(ucast (page (driver s)), f)],
                   frame := (if page (driver s) + 1 \<ge> kNumPages D then None
                             else Some (ptr_add f (unat (kPageSize D)))),
                   page := page (driver s) + 1 \<rparr> \<rparr>"
proof -
  have a: "frame (driver s) \<noteq> None" using assms(1) by simp
  show ?thesis
    by (simp add: display_Update_active [OF a] Update_accept [OF assms])
qed

section \<open>The frame macros\<close>

lemma probe_full:
  "N \<le> readable_count (frame_buffer s) \<Longrightarrow> begin_frame_probe N (fr, s) = (fr, s)"
  by (auto simp: begin_frame_probe_def writeable_def)

lemma probe_free:
  "readable_count (frame_buffer s) < N \<Longrightarrow>
   begin_frame_probe N (fr, s) = (Some (Ptr (unat (write_frame (frame_buffer s))) 0), s)"
  by (simp add: begin_frame_probe_def writeable_def writeable_frame_def not_le)

lemma loop_nowait: "begin_frame_loop N False st = Some (begin_frame_probe N st)"
  by (subst begin_frame_loop.simps) (simp add: Let_def)

lemma loop_free:
  "readable_count (frame_buffer s) < N \<Longrightarrow>
   begin_frame_loop N wait (fr, s) = Some (Some (Ptr (unat (write_frame (frame_buffer s))) 0), s)"
  by (subst begin_frame_loop.simps) (simp add: Let_def probe_free)

lemma loop_spins_aux:
  assumes "begin_frame_loop N wait st = Some y"
  shows "\<not> (wait \<and> fst st = None \<and> N \<le> readable_count (frame_buffer (snd st)))"
proof (rule begin_frame_loop.raw_induct
    [where P = "\<lambda>N wait st y.
        \<not> (wait \<and> fst st = None \<and> N \<le> readable_count (frame_buffer (snd st)))",
      OF _ assms])
  fix f :: "size_t \<Rightarrow> bool \<Rightarrow> ptr option \<times> 'a display \<Rightarrow> (ptr option \<times> 'a display) option"
  fix N wait st y
  assume IH: "\<And>N wait st y. f N wait st = Some y \<Longrightarrow>
      \<not> (wait \<and> fst st = None \<and> N \<le> readable_count (frame_buffer (snd st)))"
  assume body: "(let st' = begin_frame_probe N st
      in if fst st' = None \<and> wait then f N wait st' else Some st') = Some y"
  show "\<not> (wait \<and> fst st = None \<and> N \<le> readable_count (frame_buffer (snd st)))"
  proof
    assume c: "wait \<and> fst st = None \<and> N \<le> readable_count (frame_buffer (snd st))"
    then have "begin_frame_probe N st = st"
      using probe_full [of N "snd st" "fst st"] by (cases st) simp
    with c body have "f N wait st = Some y" by (simp add: Let_def)
    from IH [OF this] c show False by simp
  qed
qed

lemma loop_spins:
  "N \<le> readable_count (frame_buffer s) \<Longrightarrow> begin_frame_loop N True (None, s) = None"
  using loop_spins_aux [of N True "(None, s)"] by (cases "begin_frame_loop N True (None, s)") auto

lemma two_frames_queued_fb:
  "frame_buffer two_frames_queued
   = \<lparr> frames = replicate 2 (replicate 1024 0), write_frame = 0, read_frame = 0,
       readable_count = 2 \<rparr>"
  by (simp add: two_frames_queued_def display_kNumFrames_def display_Init_def Init_def
      written_def ILI9341_Driver_def ILI9341_kFrameSize_def Let_def)

lemma two_frames_queued_driver:
  "frame (driver two_frames_queued) = None"
  "page (driver two_frames_queued) = 0"
  "sent (driver two_frames_queued) = []"
  by (simp_all add: two_frames_queued_def display_Init_def driver_Init_def display_static_def
      Let_def)

lemma two_frames_queued_reached:
  "Option.bind
     (graphics_frame 2 True (\<lambda>c. c)
        (display_Init ILI9341_Driver 2 (display_static ILI9341_Driver 2 ILI9341_static)))
     (\<lambda>(r, s1). graphics_frame 2 True (\<lambda>c. c) s1)
   = Some (Drawn, two_frames_queued)"
  by (simp add: graphics_frame_def loop_free display_Init_def Init_def two_frames_queued_def
      display_kNumFrames_def Let_def written_def)

section \<open>The ILI9341 sink\<close>

lemma ILI9341_SendPage_rejects:
  "\<not> display_initialized h \<or> ILI9341_kNumPages \<le> ucast index \<Longrightarrow>
   ILI9341_SendPage index p mem h = (False, h)"
  by (auto simp: ILI9341_SendPage_def)

lemma ILI9341_SendPage_accepts:
  "display_initialized h \<Longrightarrow> ucast index < ILI9341_kNumPages \<Longrightarrow>
   fst (ILI9341_SendPage index p mem h)"
  by (simp add: ILI9341_SendPage_def Let_def not_le [symmetric] del: upt_rec_numeral fold_simps)

lemma ILI9341_Init_initialized: "display_initialized (ILI9341_Init h)"
  by (simp add: ILI9341_Init_def Let_def)

lemma SendPage_ILI9341: "SendPage ILI9341_Driver = ILI9341_SendPage"
  by (simp add: ILI9341_Driver_def)

lemma uninit_steps:
  assumes "\<not> display_initialized (hw (driver s))" "frame (driver s) = Some f"
  shows "hw (driver ((display_Update ILI9341_Driver ^^ i) s)) = hw (driver s)
       \<and> frame (driver ((display_Update ILI9341_Driver ^^ i) s)) = Some f
       \<and> page (driver ((display_Update ILI9341_Driver ^^ i) s)) = page (driver s)
       \<and> frame_buffer ((display_Update ILI9341_Driver ^^ i) s) = frame_buffer s"
proof (induction i)
  case 0
  show ?case using assms by simp
next
  case (Suc i)
  let ?t = "(display_Update ILI9341_Driver ^^ i) s"
  have r: "SendPage ILI9341_Driver (ucast (page (driver ?t))) f (frames (frame_buffer ?t))
             (hw (driver ?t)) = (False, hw (driver ?t))"
    using Suc assms(1) by (simp add: ILI9341_Driver_def ILI9341_SendPage_rejects)
  have f: "frame (driver ?t) = Some f" using Suc by simp
  have n: "\<not> fst (SendPage ILI9341_Driver (ucast (page (driver ?t))) f (frames (frame_buffer ?t))
             (hw (driver ?t)))" using r by simp
  show ?case
    using Suc r by (simp add: display_Update_reject [OF f n])
qed

lemma fold_keeps:
  assumes "\<And>x s. P (f x s) = P s"
  shows "P (fold f xs s) = P s"
  by (induction xs arbitrary: s) (simp_all add: assms)

lemma DrawScaledPixel_initialized:
  "display_initialized (DrawScaledPixel x y on h) = display_initialized h"
  by (simp add: DrawScaledPixel_def Let_def)

lemma ILI9341_SendPage_initialized:
  "display_initialized (snd (ILI9341_SendPage i p m h)) = display_initialized h"
proof -
  have "display_initialized (fold (\<lambda>col. fold (\<lambda>b. DrawScaledPixel (int col) (y + int b) (c col b)) bs) cs s)
        = display_initialized s" for y c bs cs s
    by (rule fold_keeps [where P = display_initialized],
        rule fold_keeps [where P = display_initialized],
        rule DrawScaledPixel_initialized)
  then show ?thesis
    by (simp add: ILI9341_SendPage_def Let_def del: upt_rec_numeral fold_simps)
qed

lemma page_step:
  assumes "frame (driver s) = Some (Ptr sl off)" "display_initialized (hw (driver s))"
    and "page (driver s) + 1 < 8" "page (driver s) < 8"
  shows "frame (driver (display_Update ILI9341_Driver s)) = Some (Ptr sl (off + 128))
       \<and> page (driver (display_Update ILI9341_Driver s)) = page (driver s) + 1
       \<and> display_initialized (hw (driver (display_Update ILI9341_Driver s)))
       \<and> frame_buffer (display_Update ILI9341_Driver s) = frame_buffer s"
proof -
  have a: "fst (SendPage ILI9341_Driver (ucast (page (driver s))) (Ptr sl off)
                 (frames (frame_buffer s)) (hw (driver s)))"
    using assms(2,4)
    by (simp add: SendPage_ILI9341 ILI9341_SendPage_accepts ILI9341_kNumPages_def)
  have k: "kNumPages ILI9341_Driver = 8" "unat (kPageSize ILI9341_Driver) = 128"
    by (simp_all add: ILI9341_Driver_def ILI9341_kNumPages_def ILI9341_kPageSize_def
        ILI9341_kFrameSize_def)
  show ?thesis
    using assms(2,3)
    by (simp add: display_Update_accept [OF assms(1) a] k not_le [symmetric]
        SendPage_ILI9341 ILI9341_SendPage_initialized)
qed

lemma funpow8: "(f ^^ 8) x = f (f (f (f (f (f (f (f x)))))))"
  by (simp add: eval_nat_numeral)

lemma first_frame_published_simps:
  "frame (driver first_frame_published) = None"
  "page (driver first_frame_published) = 0"
  "sent (driver first_frame_published) = []"
  "display_initialized (hw (driver first_frame_published))"
  "frame_buffer first_frame_published
   = \<lparr> frames = replicate 2 (replicate 1024 0), write_frame = 1, read_frame = 0,
       readable_count = 1 \<rparr>"
  by (simp_all add: first_frame_published_def display_Init_def driver_Init_def Init_def
      display_static_def display_kNumFrames_def written_def Let_def ILI9341_Driver_def
      ILI9341_Init_initialized ILI9341_kFrameSize_def)

lemma last_page_due_simps:
  "frame (driver last_page_due) = Some (Ptr 0 896)"
  "page (driver last_page_due) = 7"
  "display_initialized (hw (driver last_page_due))"
  "frame_buffer last_page_due = frame_buffer first_frame_published"
proof -
  let ?D = "ILI9341_Driver"
  let ?s0 = "first_frame_published"
  let ?s1 = "display_Update ?D ?s0"
  have n: "readable_count (frame_buffer ?s0) \<noteq> 0" by (simp add: first_frame_published_simps)
  note b = display_Update_begin [OF first_frame_published_simps(1) n, of ?D]
  have s1: "frame (driver ?s1) = Some (Ptr 0 0)" "page (driver ?s1) = 0"
    "display_initialized (hw (driver ?s1))" "frame_buffer ?s1 = frame_buffer ?s0"
    by (simp_all add: b first_frame_published_simps)
  note p1 = page_step [OF s1(1) s1(3)]
  let ?s2 = "display_Update ?D ?s1"
  have s2: "frame (driver ?s2) = Some (Ptr 0 128) \<and> page (driver ?s2) = 1
       \<and> display_initialized (hw (driver ?s2)) \<and> frame_buffer ?s2 = frame_buffer ?s0"
    using p1 s1 by simp
  let ?s3 = "display_Update ?D ?s2"
  have s3: "frame (driver ?s3) = Some (Ptr 0 256) \<and> page (driver ?s3) = 2
       \<and> display_initialized (hw (driver ?s3)) \<and> frame_buffer ?s3 = frame_buffer ?s0"
    using page_step [of ?s2 0 128] s2 by simp
  let ?s4 = "display_Update ?D ?s3"
  have s4: "frame (driver ?s4) = Some (Ptr 0 384) \<and> page (driver ?s4) = 3
       \<and> display_initialized (hw (driver ?s4)) \<and> frame_buffer ?s4 = frame_buffer ?s0"
    using page_step [of ?s3 0 256] s3 by simp
  let ?s5 = "display_Update ?D ?s4"
  have s5: "frame (driver ?s5) = Some (Ptr 0 512) \<and> page (driver ?s5) = 4
       \<and> display_initialized (hw (driver ?s5)) \<and> frame_buffer ?s5 = frame_buffer ?s0"
    using page_step [of ?s4 0 384] s4 by simp
  let ?s6 = "display_Update ?D ?s5"
  have s6: "frame (driver ?s6) = Some (Ptr 0 640) \<and> page (driver ?s6) = 5
       \<and> display_initialized (hw (driver ?s6)) \<and> frame_buffer ?s6 = frame_buffer ?s0"
    using page_step [of ?s5 0 512] s5 by simp
  let ?s7 = "display_Update ?D ?s6"
  have s7: "frame (driver ?s7) = Some (Ptr 0 768) \<and> page (driver ?s7) = 6
       \<and> display_initialized (hw (driver ?s7)) \<and> frame_buffer ?s7 = frame_buffer ?s0"
    using page_step [of ?s6 0 640] s6 by simp
  let ?s8 = "display_Update ?D ?s7"
  have s8: "frame (driver ?s8) = Some (Ptr 0 896) \<and> page (driver ?s8) = 7
       \<and> display_initialized (hw (driver ?s8)) \<and> frame_buffer ?s8 = frame_buffer ?s0"
    using page_step [of ?s7 0 768] s7 by simp
  have e: "last_page_due = ?s8" by (simp add: last_page_due_def funpow8)
  show "frame (driver last_page_due) = Some (Ptr 0 896)"
    "page (driver last_page_due) = 7"
    "display_initialized (hw (driver last_page_due))"
    "frame_buffer last_page_due = frame_buffer first_frame_published"
    using s8 by (simp_all add: e)
qed


lemma first_frame_published_reached:
  "graphics_frame 2 True (\<lambda>c. c)
     (display_Init ILI9341_Driver 2 (display_static ILI9341_Driver 2 ILI9341_static))
   = Some (Drawn, first_frame_published)"
  by (simp add: graphics_frame_def loop_free display_Init_def Init_def first_frame_published_def
      display_kNumFrames_def Let_def)

lemma cold_display_simps:
  "frame (driver cold_display) = Some (Ptr 0 0)"
  "page (driver cold_display) = 0"
  "sent (driver cold_display) = []"
  "hw (driver cold_display) = ILI9341_static"
  "frame_buffer cold_display
   = \<lparr> frames = replicate 2 (replicate 1024 0), write_frame = 1, read_frame = 0,
       readable_count = 1 \<rparr>"
  by (simp_all add: cold_display_def display_static_def display_kNumFrames_def written_def
      Let_def display_Update_def frame_valid_def readable_def readable_frame_def Begin_def
      ILI9341_Driver_def ILI9341_kFrameSize_def)

section \<open>Running the main loop\<close>

lemma ILI9341_consts:
  "kNumPages ILI9341_Driver = 8" "kPageSize ILI9341_Driver = 128"
  "kFrameSize ILI9341_Driver = 1024" "dd_Flush ILI9341_Driver = ILI9341_Flush"
  by (simp_all add: ILI9341_Driver_def ILI9341_kNumPages_def ILI9341_kPageSize_def
      ILI9341_kFrameSize_def)

lemma ILI9341_SendPage_fst:
  "display_initialized h \<Longrightarrow> ucast index < (8::size_t) \<Longrightarrow>
   fst (ILI9341_SendPage index p mem h) = True"
  using ILI9341_SendPage_accepts [of h index p mem] by (simp add: ILI9341_kNumPages_def)

lemmas Main_eval = Main_loop_def graphics_frame_def loop_free loop_spins
  display_Update_def frame_valid_def Update_def split_def Let_def readable_def
  readable_frame_def Begin_def display_Flush_def driver_Flush_def read_def written_def
  SendPage_ILI9341 ILI9341_consts ILI9341_SendPage_fst ILI9341_SendPage_initialized
  ILI9341_Flush_def display_kNumFrames_def word_less_nat_alt word_le_nat_alt

lemma Main_setup_simps:
  "frame_buffer (Main_setup power_on)
   = \<lparr> frames = replicate 2 (replicate 1024 0), write_frame = 0, read_frame = 0,
       readable_count = 0 \<rparr>"
  "frame (driver (Main_setup power_on)) = None"
  "page (driver (Main_setup power_on)) = 0"
  "display_initialized (hw (driver (Main_setup power_on)))"
  by (simp_all add: Main_setup_def power_on_def display_Init_def driver_Init_def Init_def
      display_static_def display_kNumFrames_def ILI9341_Init_initialized
      ILI9341_Driver_def ILI9341_kFrameSize_def)

lemma Main_second_release:
  "\<exists>s. Main_run [Some d1, None, None, None, None, None, None, Some d2]
          (Main_setup power_on) = Some s
       \<and> readable_count (frame_buffer s) = 1 \<and> read_frame (frame_buffer s) = 1"
  by (simp add: Main_eval Main_setup_simps)

section \<open>Claims about the pool\<close>

text \<open>
  Claim C1 (mutual exclusion of handles). After every legal sequence of operations
  on a pool of \<open>N > 0\<close> slots that starts from \<open>Init\<close>, \<open>writeable_frame\<close> and
  \<open>readable_frame\<close> never both return a non-null pointer to the same slot buffer;
  \<open>readable_count\<close> stays at most \<open>N\<close>; whenever \<open>0 < readable_count < N\<close> both
  handles exist, are the slots \<open>frames[write_frame]\<close> and \<open>frames[read_frame]\<close> of the
  array, and these are distinct; at \<open>readable_count = 0\<close> the readable handle is
  none and at \<open>readable_count = N\<close> the writable handle is none.
\<close>

theorem mutual_exclusion:
  assumes "0 < N" "run N (Init F N) cs = Some fb"
  shows "(fst (writeable_frame N fb) = None \<or> fst (readable_frame fb) = None
            \<or> fst (writeable_frame N fb) \<noteq> fst (readable_frame fb))
       \<and> readable_count fb \<le> N
       \<and> (0 < readable_count fb \<and> readable_count fb < N \<longrightarrow>
            fst (writeable_frame N fb) = Some (Ptr (unat (write_frame fb)) 0)
          \<and> fst (readable_frame fb) = Some (Ptr (unat (read_frame fb)) 0)
          \<and> write_frame fb \<noteq> read_frame fb
          \<and> unat (write_frame fb) < length (frames fb)
          \<and> unat (read_frame fb) < length (frames fb))
       \<and> (readable_count fb = 0 \<longrightarrow> fst (readable_frame fb) = None)
       \<and> (readable_count fb = N \<longrightarrow> fst (writeable_frame N fb) = None)"
proof -
  have inv: "ring_inv N fb"
    using ring_inv_run [OF ring_inv_Init [OF assms(1)] assms(2)] .
  have d: "write_frame fb \<noteq> read_frame fb"
    if "0 < readable_count fb" "readable_count fb < N"
    using ring_distinct [OF inv] that by (auto simp: word_less_nat_alt)
  have le: "readable_count fb \<le> N" using inv by (simp add: ring_inv_def word_le_nat_alt)
  have len: "unat (write_frame fb) < length (frames fb)" "unat (read_frame fb) < length (frames fb)"
    using inv by (simp_all add: ring_inv_def)
  have mid: "0 < readable_count fb \<and> readable_count fb < N"
    if "readable_count fb \<noteq> 0" "readable_count fb \<noteq> N"
    using that(1) le_neq_trans [OF le that(2)] by (simp add: word_neq_0_conv)
  have w: "fst (writeable_frame N fb) = Some (Ptr (unat (write_frame fb)) 0)"
    if "readable_count fb < N"
    using that by (simp add: writeable_frame_def not_le)
  have wn: "fst (writeable_frame N fb) = None" if "readable_count fb = N"
    using that by (simp add: writeable_frame_def)
  have r: "fst (readable_frame fb) = Some (Ptr (unat (read_frame fb)) 0)"
    if "0 < readable_count fb"
    using that by (auto simp: readable_frame_def)
  have rn: "fst (readable_frame fb) = None" if "readable_count fb = 0"
    using that by (simp add: readable_frame_def)
  have excl: "fst (writeable_frame N fb) = None \<or> fst (readable_frame fb) = None
            \<or> fst (writeable_frame N fb) \<noteq> fst (readable_frame fb)"
  proof (cases "readable_count fb = 0 \<or> readable_count fb = N")
    case True
    then show ?thesis using wn rn by auto
  next
    case False
    then have m: "0 < readable_count fb" "readable_count fb < N" using mid by simp_all
    show ?thesis using d [OF m] w [OF m(2)] r [OF m(1)] by (simp add: word_unat_eq_iff)
  qed
  show ?thesis
    using excl le d w r wn rn len by simp
qed


theorem mutual_exclusion_witness:
  "(0::size_t) < 2
   \<and> run 2 (Init 4 2) [Draw [1, 2, 3, 4], Written]
       = Some \<lparr> frames = [[1, 2, 3, 4], [0, 0, 0, 0]], write_frame = 1, read_frame = 0,
                readable_count = 1 \<rparr>
   \<and> fst (writeable_frame 2 \<lparr> frames = [[1, 2, 3, 4], [0, 0, 0, 0]], write_frame = 1,
                                read_frame = 0, readable_count = 1 \<rparr>) = Some (Ptr 1 0)
   \<and> fst (readable_frame \<lparr> frames = [[1, 2, 3, 4], [0, 0, 0, 0]], write_frame = 1,
                             read_frame = 0, readable_count = 1 \<rparr>) = Some (Ptr 0 0)"
proof -
  have pos: "(0::size_t) < 2" by simp
  have r: "run 2 (Init 4 2) [Draw [1, 2, 3, 4], Written]
       = Some \<lparr> frames = [[1, 2, 3, 4], [0, 0, 0, 0]], write_frame = 1, read_frame = 0,
                readable_count = 1 \<rparr>"
    by (simp add: fb_eval replicate_unfold)
  show ?thesis
    using pos r mutual_exclusion [OF pos r] by simp
qed

text \<open>
  Claim C5 (FIFO order). For every pool size \<open>N > 0\<close> and every sequence of
  operations from \<open>Init\<close>, run as far as it is legal, what the consumer is shown by
  \<open>readable_frame\<close> and gives back with \<open>read()\<close> is, in order, handle and content,
  what the producer was handed by \<open>writeable_frame\<close> and published with
  \<open>written()\<close>: the i-th released slot is the i-th committed slot. For \<open>N = 2\<close> and
  three commits A, B, C, where C cannot be drawn or committed before a release, the
  consumer peeks and drains A in slot 0, then B in slot 1, then C in slot 0.
\<close>

theorem fifo_order:
  assumes "0 < N"
  shows "released N (Init F N) cs
         = take (length (released N (Init F N) cs)) (committed N (Init F N) cs)"
  using fifo_general [OF ring_inv_Init [OF assms], of F cs] by (simp add: pending_Init)

theorem fifo_order_witness:
  "(0::size_t) < 2 \<and>
   released 2 (Init 4 2)
     [Draw [0,0,0,0], Written, Draw [255,255,255,255], Written, Read,
      Draw [1,2,3,4], Written, Read, Read]
   = [(Ptr 0 0, [0,0,0,0]), (Ptr 1 0, [255,255,255,255]), (Ptr 0 0, [1,2,3,4])] \<and>
   committed 2 (Init 4 2)
     [Draw [0,0,0,0], Written, Draw [255,255,255,255], Written, Read,
      Draw [1,2,3,4], Written, Read, Read]
   = [(Ptr 0 0, [0,0,0,0]), (Ptr 1 0, [255,255,255,255]), (Ptr 0 0, [1,2,3,4])] \<and>
   run 2 (Init 4 2) [Draw [0,0,0,0], Written, Draw [255,255,255,255], Written, Draw [1,2,3,4]] = None \<and>
   run 2 (Init 4 2) [Draw [0,0,0,0], Written, Draw [255,255,255,255], Written, Written] = None"
  using fifo_order [of 2 4 "[Draw [0,0,0,0], Written, Draw [255,255,255,255], Written, Read,
      Draw [1,2,3,4], Written, Read, Read]"]
  by (simp add: fb_eval)

text \<open>
  Claim C6 (conservation). Let a sequence of operations be legal from \<open>Init\<close> on a
  pool of \<open>N > 0\<close> slots, with \<open>k\<close> calls of \<open>written()\<close> and \<open>m\<close> calls of
  \<open>read()\<close>. Then \<open>m \<le> k\<close> and \<open>readable_count\<close> is \<open>k - m\<close> at the end, and after
  every prefix of the sequence the same holds of the prefix's own counts, with
  \<open>readable_count\<close> between 0 and \<open>N\<close>.
\<close>

theorem conservation:
  assumes "0 < N" "run N (Init F N) cs = Some fb"
  shows "count_list cs Read \<le> count_list cs Written
       \<and> unat (readable_count fb) = count_list cs Written - count_list cs Read
       \<and> (\<forall>n. \<exists>fb'. run N (Init F N) (take n cs) = Some fb'
               \<and> count_list (take n cs) Read \<le> count_list (take n cs) Written
               \<and> unat (readable_count fb')
                   = count_list (take n cs) Written - count_list (take n cs) Read
               \<and> 0 \<le> readable_count fb' \<and> readable_count fb' \<le> N)"
proof -
  have inv0: "ring_inv N (Init F N)" using ring_inv_Init [OF assms(1)] .
  have z: "unat (readable_count (Init F N)) = 0" by (simp add: Init_def)
  have pre: "\<exists>fb'. run N (Init F N) (take n cs) = Some fb'
           \<and> count_list (take n cs) Read \<le> count_list (take n cs) Written
           \<and> unat (readable_count fb')
               = count_list (take n cs) Written - count_list (take n cs) Read
           \<and> 0 \<le> readable_count fb' \<and> readable_count fb' \<le> N" for n
  proof -
    obtain fb' where r: "run N (Init F N) (take n cs) = Some fb'"
      using run_take [OF assms(2)] by blast
    have "ring_inv N fb'" using ring_inv_run [OF inv0 r] .
    then have "readable_count fb' \<le> N" by (simp add: ring_inv_def word_le_nat_alt)
    then show ?thesis
      using r count_balance [OF inv0 r] z by simp
  qed
  have "count_list cs Read \<le> count_list cs Written
       \<and> unat (readable_count fb) = count_list cs Written - count_list cs Read"
    using count_balance [OF inv0 assms(2)] z by simp
  then show ?thesis using pre by simp
qed

theorem conservation_witness:
  "(0::size_t) < 2
   \<and> run 2 (Init 4 2) [Draw [1, 2, 3, 4], Written, Written, Read]
       = Some \<lparr> frames = [[1, 2, 3, 4], [0, 0, 0, 0]], write_frame = 0, read_frame = 1,
                readable_count = 1 \<rparr>
   \<and> count_list [Draw [1, 2, 3, 4], Written, Written, Read] Written = 2
   \<and> count_list [Draw [1, 2, 3, 4], Written, Written, Read] Read = 1
   \<and> unat (readable_count \<lparr> frames = [[1, 2, 3, 4], [0, 0, 0, 0]], write_frame = 0,
                              read_frame = 1, readable_count = (1::size_t) \<rparr>) = 2 - 1"
proof -
  have pos: "(0::size_t) < 2" by simp
  have r: "run 2 (Init 4 2) [Draw [1, 2, 3, 4], Written, Written, Read]
       = Some \<lparr> frames = [[1, 2, 3, 4], [0, 0, 0, 0]], write_frame = 0, read_frame = 1,
                readable_count = 1 \<rparr>"
    by (simp add: fb_eval replicate_unfold)
  show ?thesis
    using pos r conservation [OF pos r] by simp
qed


section \<open>Claims about the display functions\<close>

text \<open>
  Claim C3 (idle-state release underflow). Whenever the paged driver holds no frame,
  \<open>display::Flush()\<close> calls \<open>frame_buffer.read()\<close>. If \<open>readable_count\<close> is 0 then
  (no frame ever begun, or \<open>Flush\<close> called again after a release), the decrement wraps
  the 32-bit counter to its maximum \<open>2 ^ 32 - 1\<close>, after which \<open>writeable()\<close> is false
  and \<open>readable()\<close> is true although no frame has been published.
\<close>

theorem flush_idle_underflow:
  assumes "frame (driver s) = None"
  shows "frame_buffer (display_Flush D N s) = read N (frame_buffer s)
       \<and> (readable_count (frame_buffer s) = 0 \<longrightarrow>
            readable_count (frame_buffer (display_Flush D N s)) = - 1
          \<and> unat (readable_count (frame_buffer (display_Flush D N s))) = 2 ^ 32 - 1
          \<and> \<not> writeable N (frame_buffer (display_Flush D N s))
          \<and> readable (frame_buffer (display_Flush D N s)))"
proof -
  have m: "unat (- 1 :: size_t) = 2 ^ 32 - 1"
    by (simp add: unat_max_size_t)
  have n: "\<not> (- 1 :: size_t) < N" by (simp add: word_order.extremum_strict)
  have p: "(0 :: size_t) < - 1" by (simp add: word_gt_0)
  show ?thesis
    using assms m n p
    by (simp add: display_Flush_idle read_def writeable_def readable_def)
qed

theorem flush_idle_underflow_witness:
  "frame (driver (display_Init ILI9341_Driver 2 (display_static ILI9341_Driver 2 ILI9341_static))) = None
   \<and> readable_count (frame_buffer (display_Init ILI9341_Driver 2
         (display_static ILI9341_Driver 2 ILI9341_static))) = 0
   \<and> readable_count (frame_buffer (display_Flush ILI9341_Driver 2
         (display_Init ILI9341_Driver 2 (display_static ILI9341_Driver 2 ILI9341_static))))
       = - 1
   \<and> unat (readable_count (frame_buffer (display_Flush ILI9341_Driver 2
         (display_Init ILI9341_Driver 2 (display_static ILI9341_Driver 2 ILI9341_static)))))
       = 4294967295
   \<and> \<not> writeable 2 (frame_buffer (display_Flush ILI9341_Driver 2
         (display_Init ILI9341_Driver 2 (display_static ILI9341_Driver 2 ILI9341_static))))
   \<and> readable (frame_buffer (display_Flush ILI9341_Driver 2
         (display_Init ILI9341_Driver 2 (display_static ILI9341_Driver 2 ILI9341_static))))"
proof -
  have f: "frame (driver (display_Init ILI9341_Driver 2
             (display_static ILI9341_Driver 2 ILI9341_static))) = None"
    by (simp add: display_Init_def driver_Init_def)
  have z: "readable_count (frame_buffer (display_Init ILI9341_Driver 2
             (display_static ILI9341_Driver 2 ILI9341_static))) = 0"
    by (simp add: display_Init_def Init_def)
  note t = flush_idle_underflow [OF f, of ILI9341_Driver 2, THEN conjunct2]
  from t z have "readable_count (frame_buffer (display_Flush ILI9341_Driver 2
         (display_Init ILI9341_Driver 2 (display_static ILI9341_Driver 2 ILI9341_static))))
       = - 1
   \<and> unat (readable_count (frame_buffer (display_Flush ILI9341_Driver 2
         (display_Init ILI9341_Driver 2 (display_static ILI9341_Driver 2 ILI9341_static)))))
       = 2 ^ 32 - 1
   \<and> \<not> writeable 2 (frame_buffer (display_Flush ILI9341_Driver 2
         (display_Init ILI9341_Driver 2 (display_static ILI9341_Driver 2 ILI9341_static))))
   \<and> readable (frame_buffer (display_Flush ILI9341_Driver 2
         (display_Init ILI9341_Driver 2 (display_static ILI9341_Driver 2 ILI9341_static))))"
    by (rule mp)
  then show ?thesis
    using f z by (simp add: unat_max_size_t)
qed



text \<open>
  Claim C9 (non-blocking drop). When the pool is full, \<open>readable_count = kNumFrames\<close>,
  \<open>GRAPHICS_BEGIN_FRAME(false) ... GRAPHICS_END_FRAME()\<close> returns at once with the
  frame dropped: the wait loop leaves after one pass with no frame, the drawing body
  is skipped, nothing is committed and the whole state is as before. The probe
  \<open>writeable_frame\<close> returns none and leaves \<open>write_frame\<close>, \<open>read_frame\<close> and
  \<open>readable_count\<close> unchanged.
\<close>

theorem nonblocking_drop:
  assumes "readable_count (frame_buffer s) = N"
  shows "graphics_frame N False draw s = Some (Dropped, s)
       \<and> begin_frame_loop N False (None, s) = Some (None, s)
       \<and> writeable_frame N (frame_buffer s) = (None, frame_buffer s)"
  using assms
  by (simp add: graphics_frame_def loop_nowait probe_full writeable_frame_def)

theorem nonblocking_drop_witness:
  "readable_count (frame_buffer two_frames_queued) = 2
   \<and> graphics_frame 2 False (map (\<lambda>b. 255)) two_frames_queued = Some (Dropped, two_frames_queued)
   \<and> writeable_frame 2 (frame_buffer two_frames_queued) = (None, frame_buffer two_frames_queued)"
proof -
  have h: "readable_count (frame_buffer two_frames_queued) = 2"
    by (simp add: two_frames_queued_fb)
  show ?thesis
    using h nonblocking_drop [OF h, of "map (\<lambda>b. 255)"] by simp
qed


text \<open>
  Claim C4 (cooperative wait): under the blocking policy, while
  \<open>GRAPHICS_BEGIN_FRAME(true)\<close> waits on a full pool, every wait iteration also
  invokes the transfer step, so that the consumer can free a slot. The program's own
  main loop shows that the code does not do this. After \<open>setup()\<close> and two passes
  of \<open>loop()\<close> with a redraw due, the pool is full, \<open>readable_count = kNumFrames\<close>,
  with page 3 of slot 0 next to send. There a pass of the wait loop leaves the whole
  state as it was, where \<open>display::Update()\<close> would send page 3 and move the driver
  to page 4; so the wait loop never leaves, and the third pass of \<open>loop()\<close> with a
  redraw due does not return. The same happens with passes without a redraw in
  between.
\<close>

theorem wait_loop_makes_no_step:
  "(case Main_run [Some (map (\<lambda>b. 255)), Some (map (\<lambda>b. 255))] (Main_setup power_on) of
      None \<Rightarrow> False
    | Some s \<Rightarrow>
        readable_count (frame_buffer s) = display_kNumFrames
      \<and> frame (driver s) = Some (Ptr 0 384) \<and> page (driver s) = 3
      \<and> begin_frame_probe display_kNumFrames (None, s) = (None, s)
      \<and> frame (driver (display_Update ILI9341_Driver s)) = Some (Ptr 0 512)
      \<and> page (driver (display_Update ILI9341_Driver s)) = 4
      \<and> begin_frame_loop display_kNumFrames True (None, s) = None
      \<and> graphics_frame display_kNumFrames True (map (\<lambda>b. 255)) s = None)
   \<and> Main_run [Some (map (\<lambda>b. 255)), Some (map (\<lambda>b. 255)), Some (map (\<lambda>b. 255))]
        (Main_setup power_on) = None
   \<and> Main_run [Some (map (\<lambda>b. 255)), None, None, None, Some (map (\<lambda>b. 255)), None, None,
                Some (map (\<lambda>b. 255))] (Main_setup power_on) = None"
proof -
  have a: "case Main_run [Some (map (\<lambda>b. 255)), Some (map (\<lambda>b. 255))] (Main_setup power_on) of
      None \<Rightarrow> False
    | Some s \<Rightarrow>
        readable_count (frame_buffer s) = display_kNumFrames
      \<and> frame (driver s) = Some (Ptr 0 384) \<and> page (driver s) = 3
      \<and> begin_frame_probe display_kNumFrames (None, s) = (None, s)
      \<and> frame (driver (display_Update ILI9341_Driver s)) = Some (Ptr 0 512)
      \<and> page (driver (display_Update ILI9341_Driver s)) = 4
      \<and> begin_frame_loop display_kNumFrames True (None, s) = None
      \<and> graphics_frame display_kNumFrames True (map (\<lambda>b. 255)) s = None"
    by (simp add: Main_eval Main_setup_simps probe_full)
  have b: "Main_run [Some (map (\<lambda>b. 255)), Some (map (\<lambda>b. 255)), Some (map (\<lambda>b. 255))]
        (Main_setup power_on) = None"
    by (simp add: Main_eval Main_setup_simps)
  have c: "Main_run [Some (map (\<lambda>b. 255)), None, None, None, Some (map (\<lambda>b. 255)), None, None,
                Some (map (\<lambda>b. 255))] (Main_setup power_on) = None"
    by (simp add: Main_eval Main_setup_simps)
  show ?thesis using a b c by simp
qed

text \<open>
  Claim C10 (sink rejection guard). \<open>ILI9341_Driver::SendPage\<close> returns false and
  leaves the driver's state as it was (nothing copied into \<open>page_buffer\<close>, no dirty
  flag set, no call made on the panel) whenever the display has not been initialised
  or the page index is at least \<open>kNumPages\<close>. Consequently
  \<open>PagedDisplayDriver::Update\<close> over this sink, called with the display
  uninitialised or with \<open>page_\<close> at least \<open>kNumPages\<close>, leaves \<open>page_\<close>, \<open>frame_\<close>
  and the sink unchanged.
\<close>

theorem sendpage_guard:
  "(\<not> display_initialized h \<or> ILI9341_kNumPages \<le> ucast index \<longrightarrow>
      ILI9341_SendPage index p mem h = (False, h))
   \<and> (\<not> display_initialized (hw d)
        \<or> ILI9341_kNumPages \<le> ucast (ucast (page d) :: uint_fast8_t) \<longrightarrow>
      page (Update ILI9341_Driver mem d) = page d
      \<and> frame (Update ILI9341_Driver mem d) = frame d
      \<and> hw (Update ILI9341_Driver mem d) = hw d)"
proof -
  have a: "ILI9341_SendPage index p mem h = (False, h)"
    if "\<not> display_initialized h \<or> ILI9341_kNumPages \<le> ucast index" for index p h
    using that by (rule ILI9341_SendPage_rejects)
  have b: "page (Update ILI9341_Driver mem d) = page d
      \<and> frame (Update ILI9341_Driver mem d) = frame d
      \<and> hw (Update ILI9341_Driver mem d) = hw d"
    if c: "\<not> display_initialized (hw d)
        \<or> ILI9341_kNumPages \<le> ucast (ucast (page d) :: uint_fast8_t)"
  proof (cases "frame d")
    case None
    then show ?thesis by (simp add: Update_idle)
  next
    case (Some f)
    have r: "SendPage ILI9341_Driver (ucast (page d)) f mem (hw d) = (False, hw d)"
      using a [OF c] by (simp add: ILI9341_Driver_def)
    show ?thesis
      using Some r by (simp add: Update_reject)
  qed
  show ?thesis using a b by blast
qed

theorem sendpage_guard_witness:
  "\<not> display_initialized ILI9341_static
   \<and> ILI9341_SendPage 0 (Ptr 0 0) (replicate 2 (replicate 1024 0)) ILI9341_static
       = (False, ILI9341_static)
   \<and> ILI9341_kNumPages \<le> ucast (8 :: uint_fast8_t)
   \<and> ILI9341_SendPage 8 (Ptr 0 1024) (replicate 2 (replicate 1024 0))
         (ILI9341_Init ILI9341_static)
       = (False, ILI9341_Init ILI9341_static)
   \<and> page (Update ILI9341_Driver (replicate 2 (replicate 1024 0))
         \<lparr> frame = Some (Ptr 0 0), page = 0, hw = ILI9341_static, sent = [] \<rparr>) = 0
   \<and> frame (Update ILI9341_Driver (replicate 2 (replicate 1024 0))
         \<lparr> frame = Some (Ptr 0 0), page = 0, hw = ILI9341_static, sent = [] \<rparr>)
       = Some (Ptr 0 0)"
proof -
  have u: "\<not> display_initialized ILI9341_static" by (simp add: ILI9341_static_def)
  have k: "ILI9341_kNumPages \<le> ucast (8 :: uint_fast8_t)" by (simp add: ILI9341_kNumPages_def)
  note g1 = sendpage_guard [of ILI9341_static 0 "Ptr 0 0" "replicate 2 (replicate 1024 0)"
      "\<lparr> frame = Some (Ptr 0 0), page = 0, hw = ILI9341_static, sent = [] \<rparr>"]
  note g2 = sendpage_guard [of "ILI9341_Init ILI9341_static" 8 "Ptr 0 1024"
      "replicate 2 (replicate 1024 0)"
      "\<lparr> frame = Some (Ptr 0 0), page = 0, hw = ILI9341_static, sent = [] \<rparr>"]
  show ?thesis
    using u k g1 g2 by simp
qed



text \<open>
  Claim C8 (bounded per-call work). A single step, \<open>display::Update()\<close>, either makes
  no \<open>SendPage\<close> call and leaves the sink alone, or makes exactly one, for the
  current page of the active frame; so the trace of calls grows by at most one entry
  and the sink moves by at most one \<open>SendPage\<close>. \<open>page_\<close> advances by at most 1, and
  the pool is not touched. The same bounds hold of \<open>PagedDisplayDriver::Update\<close>
  called directly.
\<close>

theorem bounded_step:
  "((sent (driver (display_Update D s)) = sent (driver s)
       \<and> hw (driver (display_Update D s)) = hw (driver s))
     \<or> (\<exists>f. frame (driver s) = Some f
          \<and> sent (driver (display_Update D s)) = sent (driver s) @ [(ucast (page (driver s)), f)]
          \<and> hw (driver (display_Update D s))
              = snd (SendPage D (ucast (page (driver s))) f (frames (frame_buffer s))
                      (hw (driver s)))))
   \<and> length (sent (driver (display_Update D s))) \<le> length (sent (driver s)) + 1
   \<and> unat (page (driver (display_Update D s))) \<le> unat (page (driver s)) + 1
   \<and> frame_buffer (display_Update D s) = frame_buffer s
   \<and> length (sent (Update D mem d)) \<le> length (sent d) + 1
   \<and> unat (page (Update D mem d)) \<le> unat (page d) + 1"
proof -
  have U: "length (sent (Update D mem d)) \<le> length (sent d) + 1
         \<and> unat (page (Update D mem d)) \<le> unat (page d) + 1" for mem and d :: "'a PagedDisplayDriver"
    using Update_cases [of D mem d] unat_page_step [of "page d"] by auto
  show ?thesis
  proof (cases "frame (driver s)")
    case None
    show ?thesis
    proof (cases "readable_count (frame_buffer s) = 0")
      case True
      show ?thesis using U by (simp add: display_Update_idle [OF None True])
    next
      case False
      show ?thesis using U by (simp add: display_Update_begin [OF None False])
    qed
  next
    case (Some f)
    then have a: "frame (driver s) \<noteq> None" by simp
    show ?thesis
      using U [of "frames (frame_buffer s)" "driver s"] U [of mem d]
        Update_cases [of D "frames (frame_buffer s)" "driver s"] Some
      by (auto simp: display_Update_active [OF a])
  qed
qed


theorem bounded_step_witness:
  "sent (driver (display_Update ILI9341_Driver cold_display)) = [(0, Ptr 0 0)]
   \<and> length (sent (driver (display_Update ILI9341_Driver cold_display))) \<le> 0 + 1
   \<and> unat (page (driver (display_Update ILI9341_Driver cold_display))) \<le> 0 + 1
   \<and> frame_buffer (display_Update ILI9341_Driver cold_display) = frame_buffer cold_display"
  using bounded_step [of ILI9341_Driver cold_display "frames (frame_buffer cold_display)"
      "driver cold_display"]
    display_Update_sent [OF cold_display_simps(1), of ILI9341_Driver]
  by (simp add: cold_display_simps)


text \<open>
  Claim C7 (idempotent retry). Let a frame be active and let \<open>SendPage\<close> return false
  in each of \<open>n\<close> consecutive steps. Then every one of these steps leaves \<open>frame_\<close>,
  \<open>page_\<close> and the pool unchanged, and each of them, as well as the step that
  follows them, calls \<open>SendPage\<close> with the same page index and the same pointer over
  the same frame bytes: the sink is left by each step in the state that this call of
  \<open>SendPage\<close> returns from the state the step found, and the call is entered in the
  trace.
\<close>

theorem idempotent_retry:
  assumes "frame (driver s) = Some f"
    and "\<forall>i<n. \<not> fst (SendPage D (ucast (page (driver s))) f (frames (frame_buffer s))
                       (hw (driver ((display_Update D ^^ i) s))))"
  shows "frame (driver ((display_Update D ^^ n) s)) = Some f
       \<and> page (driver ((display_Update D ^^ n) s)) = page (driver s)
       \<and> frame_buffer ((display_Update D ^^ n) s) = frame_buffer s
       \<and> sent (driver ((display_Update D ^^ n) s))
           = sent (driver s) @ replicate n (ucast (page (driver s)), f)
       \<and> sent (driver (display_Update D ((display_Update D ^^ n) s)))
           = sent (driver s) @ replicate (Suc n) (ucast (page (driver s)), f)
       \<and> frames (frame_buffer (display_Update D ((display_Update D ^^ n) s)))
           = frames (frame_buffer s)
       \<and> (\<forall>i\<le>n. hw (driver ((display_Update D ^^ Suc i) s))
                   = snd (SendPage D (ucast (page (driver s))) f (frames (frame_buffer s))
                           (hw (driver ((display_Update D ^^ i) s)))))"
proof -
  note r = retry_steps [OF assms]
  then have f: "frame (driver ((display_Update D ^^ n) s)) = Some f" by simp
  have call: "hw (driver ((display_Update D ^^ Suc i) s))
                = snd (SendPage D (ucast (page (driver s))) f (frames (frame_buffer s))
                        (hw (driver ((display_Update D ^^ i) s))))" if "i \<le> n" for i
  proof -
    have "\<forall>j<i. \<not> fst (SendPage D (ucast (page (driver s))) f (frames (frame_buffer s))
                       (hw (driver ((display_Update D ^^ j) s))))"
      using assms(2) that by simp
    note ri = retry_steps [OF assms(1) this]
    then have fi: "frame (driver ((display_Update D ^^ i) s)) = Some f" by simp
    show ?thesis
      using ri display_Update_hw [OF fi, of D] by simp
  qed
  show ?thesis
    using r display_Update_sent [OF f, of D] call
    by (simp add: replicate_append_same display_Update_pool)
qed

theorem idempotent_retry_witness:
  "frame (driver cold_display) = Some (Ptr 0 0)
   \<and> \<not> fst (SendPage ILI9341_Driver (ucast (page (driver cold_display))) (Ptr 0 0)
              (frames (frame_buffer cold_display))
              (hw (driver ((display_Update ILI9341_Driver ^^ 0) cold_display))))
   \<and> \<not> fst (SendPage ILI9341_Driver (ucast (page (driver cold_display))) (Ptr 0 0)
              (frames (frame_buffer cold_display))
              (hw (driver ((display_Update ILI9341_Driver ^^ 1) cold_display))))
   \<and> \<not> fst (SendPage ILI9341_Driver (ucast (page (driver cold_display))) (Ptr 0 0)
              (frames (frame_buffer cold_display))
              (hw (driver ((display_Update ILI9341_Driver ^^ 2) cold_display))))
   \<and> \<not> fst (SendPage ILI9341_Driver (ucast (page (driver cold_display))) (Ptr 0 0)
              (frames (frame_buffer cold_display))
              (hw (driver ((display_Update ILI9341_Driver ^^ 3) cold_display))))
   \<and> \<not> fst (SendPage ILI9341_Driver (ucast (page (driver cold_display))) (Ptr 0 0)
              (frames (frame_buffer cold_display))
              (hw (driver ((display_Update ILI9341_Driver ^^ 4) cold_display))))
   \<and> frame (driver ((display_Update ILI9341_Driver ^^ 5) cold_display)) = Some (Ptr 0 0)
   \<and> page (driver ((display_Update ILI9341_Driver ^^ 5) cold_display)) = 0
   \<and> sent (driver ((display_Update ILI9341_Driver ^^ 5) cold_display))
       = [(0, Ptr 0 0), (0, Ptr 0 0), (0, Ptr 0 0), (0, Ptr 0 0), (0, Ptr 0 0)]
   \<and> sent (driver (display_Update ILI9341_Driver
         ((display_Update ILI9341_Driver ^^ 5) cold_display)))
       = [(0, Ptr 0 0), (0, Ptr 0 0), (0, Ptr 0 0), (0, Ptr 0 0), (0, Ptr 0 0), (0, Ptr 0 0)]
   \<and> hw (driver ((display_Update ILI9341_Driver ^^ Suc 0) cold_display))
       = snd (SendPage ILI9341_Driver 0 (Ptr 0 0) (frames (frame_buffer cold_display))
               (hw (driver ((display_Update ILI9341_Driver ^^ 0) cold_display))))
   \<and> hw (driver ((display_Update ILI9341_Driver ^^ Suc 5) cold_display))
       = snd (SendPage ILI9341_Driver 0 (Ptr 0 0) (frames (frame_buffer cold_display))
               (hw (driver ((display_Update ILI9341_Driver ^^ 5) cold_display))))"
proof -
  have f: "frame (driver cold_display) = Some (Ptr 0 0)" by (simp add: cold_display_simps)
  have u: "\<not> display_initialized (hw (driver cold_display))"
    by (simp add: cold_display_simps ILI9341_static_def)
  have c: "\<not> fst (SendPage ILI9341_Driver (ucast (page (driver cold_display))) (Ptr 0 0)
                    (frames (frame_buffer cold_display))
                    (hw (driver ((display_Update ILI9341_Driver ^^ i) cold_display))))" for i
    using u by (simp add: uninit_steps [OF u f] SendPage_ILI9341 ILI9341_SendPage_rejects)
  then have h: "\<forall>i<5. \<not> fst (SendPage ILI9341_Driver (ucast (page (driver cold_display)))
                    (Ptr 0 0) (frames (frame_buffer cold_display))
                    (hw (driver ((display_Update ILI9341_Driver ^^ i) cold_display))))"
    by simp
  have p: "page (driver cold_display) = 0" "sent (driver cold_display) = []"
    by (simp_all add: cold_display_simps)
  have r: "replicate 5 x = [x, x, x, x, x]" "replicate 6 x = [x, x, x, x, x, x]"
    for x :: "uint_fast8_t \<times> ptr"
    by (simp_all add: replicate_unfold)
  note t = idempotent_retry [OF f h]
  then have calls: "\<forall>i\<le>5. hw (driver ((display_Update ILI9341_Driver ^^ Suc i) cold_display))
       = snd (SendPage ILI9341_Driver (ucast (page (driver cold_display))) (Ptr 0 0)
               (frames (frame_buffer cold_display))
               (hw (driver ((display_Update ILI9341_Driver ^^ i) cold_display))))"
    by (elim conjE)
  have c0: "hw (driver ((display_Update ILI9341_Driver ^^ Suc 0) cold_display))
       = snd (SendPage ILI9341_Driver 0 (Ptr 0 0) (frames (frame_buffer cold_display))
               (hw (driver ((display_Update ILI9341_Driver ^^ 0) cold_display))))"
    using calls [rule_format, of 0] by (simp add: p)
  have c5: "hw (driver ((display_Update ILI9341_Driver ^^ Suc 5) cold_display))
       = snd (SendPage ILI9341_Driver 0 (Ptr 0 0) (frames (frame_buffer cold_display))
               (hw (driver ((display_Update ILI9341_Driver ^^ 5) cold_display))))"
    using calls [rule_format, of 5] by (simp add: p)
  have rest: "frame (driver ((display_Update ILI9341_Driver ^^ 5) cold_display)) = Some (Ptr 0 0)
   \<and> page (driver ((display_Update ILI9341_Driver ^^ 5) cold_display)) = 0
   \<and> sent (driver ((display_Update ILI9341_Driver ^^ 5) cold_display))
       = [(0, Ptr 0 0), (0, Ptr 0 0), (0, Ptr 0 0), (0, Ptr 0 0), (0, Ptr 0 0)]
   \<and> sent (driver (display_Update ILI9341_Driver
         ((display_Update ILI9341_Driver ^^ 5) cold_display)))
       = [(0, Ptr 0 0), (0, Ptr 0 0), (0, Ptr 0 0), (0, Ptr 0 0), (0, Ptr 0 0), (0, Ptr 0 0)]"
    using t by (simp add: p r)
  show ?thesis
    using f c [of 0] c [of 1] c [of 2] c [of 3] c [of 4] rest c0 c5 by blast
qed

text \<open>
  Claim C2 (atomic release on completion) does not hold of \<open>display::Update()\<close>. In
  the pipeline run up to the last page of its first frame, the step in which the sink
  accepts page 7 resets \<open>frame_\<close> to none but leaves \<open>readable_count\<close> at 1 and
  \<open>read_frame\<close> at 0; the step after it, with no further frame queued, is not idle
  but begins slot 0 again. And right after \<open>display::Init()\<close> no frame is active
  although \<open>page_ < kNumPages\<close>.
\<close>

theorem atomic_release_counterexample:
  "frame (driver last_page_due) = Some (Ptr 0 896)
   \<and> page (driver last_page_due) = kNumPages ILI9341_Driver - 1
   \<and> fst (SendPage ILI9341_Driver (ucast (page (driver last_page_due))) (Ptr 0 896)
            (frames (frame_buffer last_page_due)) (hw (driver last_page_due)))
   \<and> readable_count (frame_buffer last_page_due) = 1
   \<and> frame (driver (display_Update ILI9341_Driver last_page_due)) = None
   \<and> readable_count (frame_buffer (display_Update ILI9341_Driver last_page_due)) = 1
   \<and> read_frame (frame_buffer (display_Update ILI9341_Driver last_page_due)) = 0
   \<and> frame (driver (display_Update ILI9341_Driver (display_Update ILI9341_Driver last_page_due)))
       = Some (Ptr 0 0)
   \<and> frame (driver (display_Init ILI9341_Driver 2
         (display_static ILI9341_Driver 2 ILI9341_static))) = None
   \<and> page (driver (display_Init ILI9341_Driver 2
         (display_static ILI9341_Driver 2 ILI9341_static))) < kNumPages ILI9341_Driver"
proof -
  have f: "frame (driver last_page_due) = Some (Ptr 0 896)" by (simp add: last_page_due_simps)
  have a: "fst (SendPage ILI9341_Driver (ucast (page (driver last_page_due))) (Ptr 0 896)
            (frames (frame_buffer last_page_due)) (hw (driver last_page_due)))"
    by (simp add: SendPage_ILI9341 last_page_due_simps ILI9341_SendPage_accepts
        ILI9341_kNumPages_def)
  have l: "page (driver last_page_due) = kNumPages ILI9341_Driver - 1"
    by (simp add: last_page_due_simps ILI9341_Driver_def ILI9341_kNumPages_def)
  have c: "readable_count (frame_buffer last_page_due) = 1"
    and r: "read_frame (frame_buffer last_page_due) = 0"
    by (simp_all add: last_page_due_simps first_frame_published_simps)
  note u = display_Update_accept [OF f a]
  have n: "frame (driver (display_Update ILI9341_Driver last_page_due)) = None"
    using l by (simp add: u)
  have c1: "readable_count (frame_buffer (display_Update ILI9341_Driver last_page_due)) \<noteq> 0"
    by (simp add: display_Update_pool c)
  have b: "frame (driver (display_Update ILI9341_Driver
             (display_Update ILI9341_Driver last_page_due))) = Some (Ptr 0 0)"
    by (simp add: display_Update_begin [OF n c1] display_Update_pool r)
  have i: "frame (driver (display_Init ILI9341_Driver 2
         (display_static ILI9341_Driver 2 ILI9341_static))) = None
     \<and> page (driver (display_Init ILI9341_Driver 2
         (display_static ILI9341_Driver 2 ILI9341_static))) < kNumPages ILI9341_Driver"
    by (simp add: display_Init_def driver_Init_def ILI9341_Driver_def ILI9341_kNumPages_def)
  show ?thesis
    using f l a c n b i by (simp add: display_Update_pool r)
qed


text \<open>
  Claim C2 as amended. After a step in which \<open>SendPage\<close> accepts a page, the frame
  is still active iff \<open>page_ < kNumPages\<close>, and the pool is as before. When the
  accepted page is the last one (index \<open>kNumPages - 1\<close>), that step resets \<open>frame_\<close>
  to none with \<open>page_ = kNumPages\<close>; the slot is released by the \<open>display::Flush()\<close>
  that follows, which finds no active frame, decrements \<open>readable_count\<close> by exactly
  1 and advances \<open>read_frame\<close> by 1 modulo \<open>N\<close>; and if no further frame was
  queued, the step after that \<open>Flush\<close> is idle: it changes nothing.
\<close>

theorem completion_then_release:
  assumes "frame (driver s) = Some f"
    and "fst (SendPage D (ucast (page (driver s))) f (frames (frame_buffer s)) (hw (driver s)))"
  shows "(frame (driver (display_Update D s)) \<noteq> None
            \<longleftrightarrow> page (driver (display_Update D s)) < kNumPages D)
       \<and> frame_buffer (display_Update D s) = frame_buffer s
       \<and> (page (driver s) = kNumPages D - 1 \<longrightarrow>
            frame (driver (display_Update D s)) = None
          \<and> page (driver (display_Update D s)) = kNumPages D
          \<and> frame (driver (display_Flush D N (display_Update D s))) = None
          \<and> readable_count (frame_buffer (display_Flush D N (display_Update D s)))
              = readable_count (frame_buffer s) - 1
          \<and> read_frame (frame_buffer (display_Flush D N (display_Update D s)))
              = (read_frame (frame_buffer s) + 1) mod N
          \<and> (readable_count (frame_buffer s) = 1 \<longrightarrow>
                display_Update D (display_Flush D N (display_Update D s))
                = display_Flush D N (display_Update D s)))"
proof -
  note u = display_Update_accept [OF assms]
  have iff: "frame (driver (display_Update D s)) \<noteq> None
            \<longleftrightarrow> page (driver (display_Update D s)) < kNumPages D"
    by (auto simp: u)
  have pool: "frame_buffer (display_Update D s) = frame_buffer s"
    by (simp add: display_Update_pool)
  have last: "frame (driver (display_Update D s)) = None
          \<and> page (driver (display_Update D s)) = kNumPages D
          \<and> frame (driver (display_Flush D N (display_Update D s))) = None
          \<and> readable_count (frame_buffer (display_Flush D N (display_Update D s)))
              = readable_count (frame_buffer s) - 1
          \<and> read_frame (frame_buffer (display_Flush D N (display_Update D s)))
              = (read_frame (frame_buffer s) + 1) mod N
          \<and> (readable_count (frame_buffer s) = 1 \<longrightarrow>
                display_Update D (display_Flush D N (display_Update D s))
                = display_Flush D N (display_Update D s))"
    if l: "page (driver s) = kNumPages D - 1"
  proof -
    have n: "frame (driver (display_Update D s)) = None" using l by (simp add: u)
    have p: "page (driver (display_Update D s)) = kNumPages D" using l by (simp add: u)
    note fl = display_Flush_idle [OF n, of D N]
    have fn: "frame (driver (display_Flush D N (display_Update D s))) = None"
      using n by (simp add: fl)
    have rc: "readable_count (frame_buffer (display_Flush D N (display_Update D s)))
              = readable_count (frame_buffer s) - 1"
      by (simp add: fl pool read_def)
    have rf: "read_frame (frame_buffer (display_Flush D N (display_Update D s)))
              = (read_frame (frame_buffer s) + 1) mod N"
      by (simp add: fl pool read_def)
    have idle: "display_Update D (display_Flush D N (display_Update D s))
                = display_Flush D N (display_Update D s)"
      if "readable_count (frame_buffer s) = 1"
      using that rc by (simp add: display_Update_idle [OF fn])
    show ?thesis using n p fn rc rf idle by simp
  qed
  show ?thesis using iff pool last by simp
qed

theorem completion_then_release_witness:
  "frame (driver last_page_due) = Some (Ptr 0 896)
   \<and> fst (SendPage ILI9341_Driver (ucast (page (driver last_page_due))) (Ptr 0 896)
            (frames (frame_buffer last_page_due)) (hw (driver last_page_due)))
   \<and> page (driver last_page_due) = kNumPages ILI9341_Driver - 1
   \<and> readable_count (frame_buffer last_page_due) = 1
   \<and> frame (driver (display_Update ILI9341_Driver last_page_due)) = None
   \<and> readable_count (frame_buffer (display_Flush ILI9341_Driver 2
         (display_Update ILI9341_Driver last_page_due))) = 0
   \<and> read_frame (frame_buffer (display_Flush ILI9341_Driver 2
         (display_Update ILI9341_Driver last_page_due))) = 1
   \<and> display_Update ILI9341_Driver
         (display_Flush ILI9341_Driver 2 (display_Update ILI9341_Driver last_page_due))
       = display_Flush ILI9341_Driver 2 (display_Update ILI9341_Driver last_page_due)"
proof -
  have f: "frame (driver last_page_due) = Some (Ptr 0 896)" by (simp add: last_page_due_simps)
  have a: "fst (SendPage ILI9341_Driver (ucast (page (driver last_page_due))) (Ptr 0 896)
            (frames (frame_buffer last_page_due)) (hw (driver last_page_due)))"
    by (simp add: SendPage_ILI9341 last_page_due_simps ILI9341_SendPage_accepts
        ILI9341_kNumPages_def)
  have l: "page (driver last_page_due) = kNumPages ILI9341_Driver - 1"
    by (simp add: last_page_due_simps ILI9341_Driver_def ILI9341_kNumPages_def)
  have c: "readable_count (frame_buffer last_page_due) = 1"
    and r: "read_frame (frame_buffer last_page_due) = 0"
    by (simp_all add: last_page_due_simps first_frame_published_simps)
  note t = completion_then_release [OF f a, of 2, THEN conjunct2, THEN conjunct2, THEN mp, OF l]
  show ?thesis
    using f a l c t by (simp add: r)
qed


end
